theory Spec2Isabelle
  imports Main
begin

unbundle bit_operations_syntax

section \<open>Constants of the LS-8 emulator\<close>

text \<open>
  The constants of \<^verbatim>\<open>opcodes.py\<close> and \<^verbatim>\<open>cpu.py\<close>, defined by the expressions of the
  source. Python integers are unbounded, so every number is an \<open>int\<close>; register and
  memory indices that are fixed by the source are \<open>nat\<close>, as list positions are.
\<close>

definition BITS :: nat where
  "BITS = 8"

definition REGISTERS :: nat where
  "REGISTERS = 8"

definition IRET_OPCODE :: int where
  "IRET_OPCODE = 0x13"

definition ALU_MASK :: int where
  "ALU_MASK = 0x20"

definition MAX_MEM :: int where
  "MAX_MEM = push_bit BITS 1"

definition IM_REG :: nat where
  "IM_REG = REGISTERS - 3"

definition IS_REG :: nat where
  "IS_REG = REGISTERS - 2"

definition SP_REG :: nat where
  "SP_REG = REGISTERS - 1"

definition INTERRUPTS :: nat where
  "INTERRUPTS = BITS"

definition RESERVED :: int where
  "RESERVED = 3"

definition STACK_BASE :: int where
  "STACK_BASE = MAX_MEM - int INTERRUPTS - RESERVED - 1"

definition KEY_BUFFER :: int where
  "KEY_BUFFER = STACK_BASE"

definition NULL_INTERRUPT :: int where
  "NULL_INTERRUPT = MAX_MEM - int INTERRUPTS - 1"

definition TIMER_INTERRUPT :: nat where
  "TIMER_INTERRUPT = 0"

definition KEYBOARD_INTERRUPT :: nat where
  "KEYBOARD_INTERRUPT = 1"

section \<open>The CPU object\<close>

text \<open>
  The attributes of a \<^verbatim>\<open>CPU\<close> instance. Each field stands for the private attribute
  behind the property of the same name (\<open>PC\<close> for \<^verbatim>\<open>_program_counter\<close>, \<open>IR\<close> for
  \<^verbatim>\<open>_instruction_register\<close>, and so on). The getters that initialise an absent
  attribute to 0 on first access are modelled by a field that holds 0 from the start.
  Two attributes are created outside the constructor and can be absent, which is
  \<open>None\<close> here: \<^verbatim>\<open>__running__\<close> (field \<open>dunder_running\<close>, assigned only by
  \<^verbatim>\<open>alu\<close>) and \<^verbatim>\<open>_old_IM\<close> (field \<open>old_IM\<close>, assigned only by
  \<^verbatim>\<open>check_interrupts\<close>). \<open>OP_A\<close> and \<open>OP_B\<close> hold Python's \<^verbatim>\<open>None\<close> as \<open>None\<close>.
  \<open>stdout\<close> is the text printed so far, one \<open>char\<close> for each code point.
\<close>

record cpu =
  running :: bool
  dunder_running :: "bool option"
  reg :: "int list"
  PC :: int
  IR :: int
  MAR :: int
  MDR :: int
  FL :: int
  OP_A :: "int option"
  OP_B :: "int option"
  ram :: "int list"
  old_IM :: "int option"
  stdout :: string

text \<open>
  Exceptions are values. A raised exception leaves the object as it was mutated up to
  the raise, so a failure carries the state at that moment besides the exception.
  An \<open>AssertionError\<close> carries the fixed part of the message of its \<^verbatim>\<open>assert\<close>.
\<close>

datatype error =
    AssertionError string
  | AttributeError string
  | SystemError string
  | ZeroDivisionError
  | TypeError
  | IndexError
  | KeyError
  | ValueError

type_synonym 'a result = "(error \<times> cpu) + 'a"

definition raise :: "error \<Rightarrow> cpu \<Rightarrow> 'a result" where
  "raise e s = Inl (e, s)"

definition bindE :: "'a result \<Rightarrow> ('a \<Rightarrow> 'b result) \<Rightarrow> 'b result" where
  "bindE m f = (case m of Inl e \<Rightarrow> Inl e | Inr x \<Rightarrow> f x)"

text \<open>A \<^verbatim>\<open>for\<close> loop over a fixed range whose body may raise.\<close>

primrec for_loop :: "'a list \<Rightarrow> ('a \<Rightarrow> cpu \<Rightarrow> cpu result) \<Rightarrow> cpu \<Rightarrow> cpu result" where
  "for_loop [] body s = Inr s"
| "for_loop (i # is) body s = bindE (body i s) (for_loop is body)"

text \<open>
  Python list indexing with a computed index: \<^verbatim>\<open>None\<close> is a \<^verbatim>\<open>TypeError\<close>, a negative
  index counts from the end, and an index outside the list is an \<^verbatim>\<open>IndexError\<close>.
\<close>

definition py_index :: "'a list \<Rightarrow> int option \<Rightarrow> cpu \<Rightarrow> nat result" where
  "py_index xs i s =
     (case i of
        None \<Rightarrow> raise TypeError s
      | Some k \<Rightarrow>
          (let n = int (length xs); j = (if k < 0 then n + k else k)
           in if 0 \<le> j \<and> j < n then Inr (nat j) else raise IndexError s))"

subsection \<open>General purpose registers and their named views\<close>

definition IM :: "cpu \<Rightarrow> int" where
  "IM s = reg s ! IM_REG"

definition IM_fset :: "int \<Rightarrow> cpu \<Rightarrow> cpu" where
  "IM_fset v s = s\<lparr>reg := (reg s)[IM_REG := v AND (MAX_MEM - 1)]\<rparr>"

definition IM_fdel :: "cpu \<Rightarrow> cpu" where
  "IM_fdel s = s\<lparr>reg := (reg s)[IM_REG := 0]\<rparr>"

definition IS :: "cpu \<Rightarrow> int" where
  "IS s = reg s ! IS_REG"

definition IS_fset :: "int \<Rightarrow> cpu \<Rightarrow> cpu" where
  "IS_fset v s = s\<lparr>reg := (reg s)[IS_REG := v AND (MAX_MEM - 1)]\<rparr>"

definition IS_fdel :: "cpu \<Rightarrow> cpu" where
  "IS_fdel s = s\<lparr>reg := (reg s)[IS_REG := 0]\<rparr>"

definition SP :: "cpu \<Rightarrow> int" where
  "SP s = reg s ! SP_REG"

definition SP_fset :: "int \<Rightarrow> cpu \<Rightarrow> cpu result" where
  "SP_fset v s =
     (let v' = v AND (MAX_MEM - 1) in
      if \<not> (0 \<le> v' \<and> v' \<le> STACK_BASE)
      then raise (AssertionError ''stack pointer out of range'') s
      else
        (let pc = PC s + drop_bit 6 (IR s) in
         if \<not> (pc < v' \<or> pc = NULL_INTERRUPT)
         then raise (AssertionError ''stack cannot overlap executing code'') s
         else Inr (s\<lparr>reg := (reg s)[SP_REG := v']\<rparr>)))"

definition SP_fdel :: "cpu \<Rightarrow> cpu" where
  "SP_fdel s = s\<lparr>reg := (reg s)[SP_REG := STACK_BASE]\<rparr>"

subsection \<open>Internal registers\<close>

definition PC_fset :: "int \<Rightarrow> cpu \<Rightarrow> cpu result" where
  "PC_fset v s =
     (let v' = v AND (MAX_MEM - 1) in
      if \<not> ((0 \<le> v' \<and> v' < SP s) \<or> v' = NULL_INTERRUPT)
      then raise (AssertionError ''invalid program counter'') s
      else Inr (s\<lparr>PC := v'\<rparr>))"

definition MAR_fset :: "int \<Rightarrow> cpu \<Rightarrow> cpu" where
  "MAR_fset v s = s\<lparr>MAR := v AND (MAX_MEM - 1)\<rparr>"

definition MDR_fset :: "int \<Rightarrow> cpu \<Rightarrow> cpu" where
  "MDR_fset v s = s\<lparr>MDR := v AND (MAX_MEM - 1)\<rparr>"

definition FL_fset :: "int \<Rightarrow> cpu \<Rightarrow> cpu" where
  "FL_fset v s = s\<lparr>FL := v AND (MAX_MEM - 1)\<rparr>"

definition OP_A_fset :: "int option \<Rightarrow> cpu \<Rightarrow> cpu result" where
  "OP_A_fset v s =
     (let v' = map_option (\<lambda>x. x AND (MAX_MEM - 1)) v in
      if \<not> (case v' of None \<Rightarrow> True | Some x \<Rightarrow> 0 \<le> x \<and> x < int REGISTERS)
      then raise (AssertionError ''operand_a out of range'') s
      else Inr (s\<lparr>OP_A := v'\<rparr>))"

definition OP_B_fset :: "int option \<Rightarrow> cpu \<Rightarrow> cpu result" where
  "OP_B_fset v s =
     (let v' = map_option (\<lambda>x. x AND (MAX_MEM - 1)) v in
      if \<not> (case v' of
               None \<Rightarrow> True
             | Some x \<Rightarrow> x < (if IR s AND ALU_MASK \<noteq> 0 then int REGISTERS else MAX_MEM))
      then raise (AssertionError ''operand_b out of range for ALU operation'') s
      else Inr (s\<lparr>OP_B := v'\<rparr>))"

subsection \<open>Memory\<close>

definition ram_read :: "int \<Rightarrow> cpu \<Rightarrow> int \<times> cpu" where
  "ram_read address s =
     (let s1 = MAR_fset address s;
          s2 = MDR_fset (ram s1 ! nat (MAR s1)) s1
      in (MDR s2, s2))"

definition ram_write :: "int \<Rightarrow> int \<Rightarrow> cpu \<Rightarrow> cpu" where
  "ram_write address v s =
     (let s1 = MAR_fset address s;
          s2 = MDR_fset v s1
      in s2\<lparr>ram := (ram s2)[nat (MAR s2) := MDR s2]\<rparr>)"

section \<open>The ALU tables\<close>

text \<open>\<^verbatim>\<open>ALU\<close>: from an ALU opcode to the name of its command.\<close>

definition ALU :: "int \<rightharpoonup> string" where
  "ALU = map_of
     [(0xA0, ''ADD''), (0xA8, ''AND''), (0xA7, ''CMP''),
      (0x66, ''DEC''), (0xA3, ''DIV''), (0x65, ''INC''),
      (0xA4, ''MOD''), (0xA2, ''MUL''), (0x69, ''NOT''),
      (0xAA, ''OR''), (0xAC, ''SHL''), (0xAD, ''SHR''),
      (0xA1, ''SUB''), (0xAB, ''XOR'')]"

text \<open>
  \<^verbatim>\<open>ALU_OP\<close>: from the name of a command to its operation on \<^verbatim>\<open>x\<close> and \<^verbatim>\<open>y\<close>, where
  \<^verbatim>\<open>y\<close> is \<^verbatim>\<open>None\<close> for an instruction with a single operand. An arithmetic operator
  applied to \<^verbatim>\<open>None\<close> is a \<^verbatim>\<open>TypeError\<close> (for \<^verbatim>\<open>CMP\<close> the test \<^verbatim>\<open>x == None\<close> is false
  and \<^verbatim>\<open>x > None\<close> raises it); \<^verbatim>\<open>//\<close> and \<^verbatim>\<open>%\<close> by zero are a
  \<^verbatim>\<open>ZeroDivisionError\<close>; a shift by a negative count is a \<^verbatim>\<open>ValueError\<close>. The
  operations compute a value and touch no state, so their failure is a bare \<open>error\<close>.
\<close>

definition binary :: "(int \<Rightarrow> int \<Rightarrow> error + int) \<Rightarrow> int \<Rightarrow> int option \<Rightarrow> error + int" where
  "binary f x y = (case y of None \<Rightarrow> Inl TypeError | Some y' \<Rightarrow> f x y')"

definition ALU_OP :: "string \<rightharpoonup> (int \<Rightarrow> int option \<Rightarrow> error + int)" where
  "ALU_OP = map_of
     [(''ADD'', binary (\<lambda>x y. Inr (x + y))),
      (''AND'', binary (\<lambda>x y. Inr (x AND y))),
      (''CMP'', binary (\<lambda>x y. Inr (if x = y then 1 else if x > y then 2 else 4))),
      (''DEC'', \<lambda>x y. Inr (x - 1)),
      (''DIV'', binary (\<lambda>x y. if y = 0 then Inl ZeroDivisionError else Inr (x div y))),
      (''INC'', \<lambda>x y. Inr (x + 1)),
      (''MOD'', binary (\<lambda>x y. if y = 0 then Inl ZeroDivisionError else Inr (x mod y))),
      (''MUL'', binary (\<lambda>x y. Inr (x * y))),
      (''NOT'', \<lambda>x y. Inr (NOT x)),
      (''OR'', binary (\<lambda>x y. Inr (x OR y))),
      (''SHL'', binary (\<lambda>x y. if y < 0 then Inl ValueError else Inr (push_bit (nat y) x))),
      (''SHR'', binary (\<lambda>x y. if y < 0 then Inl ValueError else Inr (drop_bit (nat y) x))),
      (''SUB'', binary (\<lambda>x y. Inr (x - y))),
      (''XOR'', binary (\<lambda>x y. Inr (x XOR y)))]"

section \<open>Printing\<close>

text \<open>The decimal text of an integer, as \<^verbatim>\<open>str\<close> and \<^verbatim>\<open>print\<close> produce it.\<close>

fun str_nat :: "nat \<Rightarrow> string" where
  "str_nat n =
     (if n < 10 then [char_of (48 + n)]
      else str_nat (n div 10) @ [char_of (48 + n mod 10)])"

declare str_nat.simps [simp del]

definition str_int :: "int \<Rightarrow> string" where
  "str_int i = (if i < 0 then CHR ''-'' # str_nat (nat (- i)) else str_nat (nat i))"

definition newline :: char where
  "newline = CHR 0x0A"

definition print :: "string \<Rightarrow> cpu \<Rightarrow> cpu" where
  "print text s = s\<lparr>stdout := stdout s @ text\<rparr>"

section \<open>The opcode implementations (opcodes.py)\<close>

text \<open>
  Each function takes the CPU and returns it updated, or the exception it raises.
  \<open>reg_get\<close> is the read \<^verbatim>\<open>cpu.reg[i]\<close> and \<open>reg_put\<close> the write
  \<^verbatim>\<open>cpu.reg[i] = v\<close> at a computed index; the write goes to the list itself and is
  not masked.
\<close>

definition reg_get :: "int option \<Rightarrow> cpu \<Rightarrow> int result" where
  "reg_get i s = bindE (py_index (reg s) i s) (\<lambda>k. Inr (reg s ! k))"

definition reg_put :: "int option \<Rightarrow> int \<Rightarrow> cpu \<Rightarrow> cpu result" where
  "reg_put i v s = bindE (py_index (reg s) i s) (\<lambda>k. Inr (s\<lparr>reg := (reg s)[k := v]\<rparr>))"

definition CALL :: "cpu \<Rightarrow> cpu result" where
  "CALL s =
     bindE (SP_fset (SP s - 1) s) (\<lambda>s1.
     let s2 = ram_write (SP s1) (PC s1 + 2) s1 in
     bindE (reg_get (OP_A s2) s2) (\<lambda>v.
     PC_fset v s2))"

definition HLT :: "cpu \<Rightarrow> cpu result" where
  "HLT s = Inr (s\<lparr>running := False\<rparr>)"

definition INT_opcode :: "cpu \<Rightarrow> cpu result" where
  "INT_opcode s =
     bindE (reg_get (OP_A s) s) (\<lambda>r.
     if \<not> r < int BITS then raise (AssertionError ''invalid interrupt'') s
     else if r < 0 then raise ValueError s
     else
       (let s1 = IS_fset (IS s OR push_bit (nat r) 1) s
        in PC_fset (PC s1 + 2) s1))"

text \<open>
  \<^verbatim>\<open>IRET\<close> in three parts: \<open>IRET_pop\<close> is the body of its loop for register \<open>i\<close>,
  \<open>IRET_pops\<close> the loop over \<open>R6\<close> down to \<open>R0\<close> followed by the pops of \<open>FL\<close> and
  \<open>PC\<close>, and \<open>IRET\<close> adds the last statement, which reads \<^verbatim>\<open>cpu._old_IM\<close>: an
  \<^verbatim>\<open>AttributeError\<close> when \<^verbatim>\<open>check_interrupts\<close> has never assigned it.
\<close>

definition IRET_pop :: "nat \<Rightarrow> cpu \<Rightarrow> cpu result" where
  "IRET_pop i s =
     (let (v, s1) = ram_read (SP s) s;
          s2 = s1\<lparr>reg := (reg s1)[i := v]\<rparr>
      in SP_fset (SP s2 + 1) s2)"

definition IRET_pops :: "cpu \<Rightarrow> cpu result" where
  "IRET_pops s =
     bindE (for_loop (rev [0..<7]) IRET_pop s) (\<lambda>s1.
     let (v, s2) = ram_read (SP s1) s1;
         s3 = FL_fset v s2 in
     bindE (SP_fset (SP s3 + 1) s3) (\<lambda>s4.
     let (v, s5) = ram_read (SP s4) s4 in
     bindE (PC_fset v s5) (\<lambda>s6.
     SP_fset (SP s6 + 1) s6)))"

definition IRET :: "cpu \<Rightarrow> cpu result" where
  "IRET s =
     bindE (IRET_pops s) (\<lambda>s7.
     case old_IM s7 of
       None \<Rightarrow> raise (AttributeError ''_old_IM'') s7
     | Some m \<Rightarrow> Inr (IM_fset m s7))"

definition JEQ :: "cpu \<Rightarrow> cpu result" where
  "JEQ s =
     (if FL s AND 0x1 \<noteq> 0 then bindE (reg_get (OP_A s) s) (\<lambda>v. PC_fset v s)
      else PC_fset (PC s + 2) s)"

definition JGE :: "cpu \<Rightarrow> cpu result" where
  "JGE s =
     (if FL s AND 0x3 \<noteq> 0 then bindE (reg_get (OP_A s) s) (\<lambda>v. PC_fset v s)
      else PC_fset (PC s + 2) s)"

definition JGT :: "cpu \<Rightarrow> cpu result" where
  "JGT s =
     (if FL s AND 0x2 \<noteq> 0 then bindE (reg_get (OP_A s) s) (\<lambda>v. PC_fset v s)
      else PC_fset (PC s + 2) s)"

definition JLE :: "cpu \<Rightarrow> cpu result" where
  "JLE s =
     (if FL s AND 0x5 \<noteq> 0 then bindE (reg_get (OP_A s) s) (\<lambda>v. PC_fset v s)
      else PC_fset (PC s + 2) s)"

definition JLT :: "cpu \<Rightarrow> cpu result" where
  "JLT s =
     (if FL s AND 0x4 \<noteq> 0 then bindE (reg_get (OP_A s) s) (\<lambda>v. PC_fset v s)
      else PC_fset (PC s + 2) s)"

definition JMP :: "cpu \<Rightarrow> cpu result" where
  "JMP s = bindE (reg_get (OP_A s) s) (\<lambda>v. PC_fset v s)"

definition JNE :: "cpu \<Rightarrow> cpu result" where
  "JNE s =
     (if \<not> (FL s AND 0x1 \<noteq> 0) then bindE (reg_get (OP_A s) s) (\<lambda>v. PC_fset v s)
      else PC_fset (PC s + 2) s)"

text \<open>
  \<^verbatim>\<open>LD\<close> and \<^verbatim>\<open>ST\<close> assert that operand B is a register number; comparing
  \<^verbatim>\<open>None\<close> with a number is a \<^verbatim>\<open>TypeError\<close>.
\<close>

definition LD :: "cpu \<Rightarrow> cpu result" where
  "LD s =
     (case OP_B s of
        None \<Rightarrow> raise TypeError s
      | Some b \<Rightarrow>
          if \<not> (b \<ge> 0 \<and> b < int (length (reg s)))
          then raise (AssertionError ''invalid register'') s
          else
            bindE (reg_get (OP_B s) s) (\<lambda>a.
            let (v, s1) = ram_read a s in
            reg_put (OP_A s1) v s1))"

text \<open>
  \<^verbatim>\<open>LDI\<close> is a two-operand opcode, so the decoder has stored a number in \<open>OP_B\<close>
  whenever the execution loop calls it. Called with \<open>OP_B\<close> absent the source would
  store \<^verbatim>\<open>None\<close> in the register; the registers of this model hold numbers only, and
  that call is a \<^verbatim>\<open>TypeError\<close> here.
\<close>

definition LDI :: "cpu \<Rightarrow> cpu result" where
  "LDI s =
     (case OP_B s of
        None \<Rightarrow> raise TypeError s
      | Some v \<Rightarrow> reg_put (OP_A s) v s)"

definition NOP :: "cpu \<Rightarrow> cpu result" where
  "NOP s = Inr s"

definition POP :: "cpu \<Rightarrow> cpu result" where
  "POP s =
     (let (v, s1) = ram_read (SP s) s in
      bindE (reg_put (OP_A s1) v s1) (\<lambda>s2.
      SP_fset (SP s2 + 1) s2))"

text \<open>
  \<^verbatim>\<open>chr\<close> rejects a number that is no code point. A register holds a value below 256
  (every write is masked), which is one \<open>char\<close> of \<open>stdout\<close>.
\<close>

definition PRA :: "cpu \<Rightarrow> cpu result" where
  "PRA s =
     bindE (reg_get (OP_A s) s) (\<lambda>v.
     if \<not> (0 \<le> v \<and> v < 0x110000) then raise ValueError s
     else Inr (print [char_of v] s))"

definition PRN :: "cpu \<Rightarrow> cpu result" where
  "PRN s =
     bindE (reg_get (OP_A s) s) (\<lambda>v.
     Inr (print (str_int v @ [newline]) s))"

definition PUSH :: "cpu \<Rightarrow> cpu result" where
  "PUSH s =
     bindE (SP_fset (SP s - 1) s) (\<lambda>s1.
     bindE (reg_get (OP_A s1) s1) (\<lambda>v.
     Inr (ram_write (SP s1) v s1)))"

definition RET :: "cpu \<Rightarrow> cpu result" where
  "RET s =
     (let (v, s1) = ram_read (SP s) s in
      bindE (PC_fset v s1) (\<lambda>s2.
      SP_fset (SP s2 + 1) s2))"

definition ST :: "cpu \<Rightarrow> cpu result" where
  "ST s =
     (case OP_B s of
        None \<Rightarrow> raise TypeError s
      | Some b \<Rightarrow>
          if \<not> (b \<ge> 0 \<and> b < int (length (reg s)))
          then raise (AssertionError ''invalid register'') s
          else
            bindE (reg_get (OP_A s) s) (\<lambda>a.
            bindE (reg_get (OP_B s) s) (\<lambda>v.
            Inr (ram_write a v s))))"

definition ADDI :: "cpu \<Rightarrow> cpu result" where
  "ADDI s =
     bindE (reg_get (OP_A s) s) (\<lambda>x.
     case OP_B s of
       None \<Rightarrow> raise TypeError s
     | Some imm \<Rightarrow>
         bindE (reg_put (OP_A s) (x + imm) s) (\<lambda>s1.
         bindE (reg_get (OP_A s1) s1) (\<lambda>y.
         reg_put (OP_A s1) (y AND (push_bit BITS 1 - 1)) s1)))"

text \<open>\<^verbatim>\<open>OPCODES\<close>: the table the \<^verbatim>\<open>@opcode\<close> decorator fills.\<close>

definition OPCODES :: "int \<rightharpoonup> (cpu \<Rightarrow> cpu result)" where
  "OPCODES = map_of
     [(0x50, CALL), (0x01, HLT), (0x52, INT_opcode), (0x13, IRET),
      (0x55, JEQ), (0x5A, JGE), (0x57, JGT), (0x59, JLE),
      (0x58, JLT), (0x54, JMP), (0x56, JNE), (0x83, LD),
      (0x82, LDI), (0x00, NOP), (0x46, POP), (0x48, PRA),
      (0x47, PRN), (0x45, PUSH), (0x11, RET), (0x84, ST),
      (0x80, ADDI)]"

section \<open>Instruction register and decoding (cpu.py)\<close>

text \<open>
  The setter of \<^verbatim>\<open>IR\<close> validates the opcode, stores it, and decodes the operands from
  the bytes after \<open>PC\<close>: one operand when bit 6 is set, otherwise two when bit 7 is
  set, otherwise none.
\<close>

definition IR_fset :: "int \<Rightarrow> cpu \<Rightarrow> cpu result" where
  "IR_fset v s =
     (let v' = v AND (MAX_MEM - 1) in
      if \<not> (OPCODES v' \<noteq> None \<or> ALU v' \<noteq> None)
      then raise (AssertionError ''CPU.IR: invalid opcode'') s
      else
        (let s1 = s\<lparr>IR := v'\<rparr> in
         if v' AND push_bit (BITS - 2) 1 \<noteq> 0 then
           if \<not> PC s1 + 1 < SP s1
           then raise (AssertionError ''CPU.IR: instruction operands in stack'') s1
           else
             (let (a, s2) = ram_read (PC s1 + 1) s1 in
              bindE (OP_A_fset (Some a) s2) (\<lambda>s3.
              OP_B_fset None s3))
         else if v' AND push_bit (BITS - 1) 1 \<noteq> 0 then
           if \<not> PC s1 + 2 < SP s1
           then raise (AssertionError ''CPU.IR: instruction operands in stack'') s1
           else
             (let (a, s2) = ram_read (PC s1 + 1) s1 in
              bindE (OP_A_fset (Some a) s2) (\<lambda>s3.
              let (b, s4) = ram_read (PC s3 + 2) s3 in
              OP_B_fset (Some b) s4))
         else
           bindE (OP_A_fset None s1) (\<lambda>s2.
           OP_B_fset None s2)))"

section \<open>Construction and loading\<close>

text \<open>
  \<open>cpu_init\<close> is \<^verbatim>\<open>__init__\<close> run on an existing object, as \<^verbatim>\<open>load\<close> does: it resets
  the attributes it names and leaves the others (\<open>IR\<close>, the operands, \<open>old_IM\<close>,
  \<open>dunder_running\<close>, the printed text) as they are. \<open>bare\<close> is an object with no
  attribute yet, each lazily initialised attribute at its default; \<open>CPU\<close> is the
  constructor call \<^verbatim>\<open>CPU()\<close>.
\<close>

definition cpu_init :: "cpu \<Rightarrow> cpu" where
  "cpu_init s =
     (let s1 = s\<lparr>running := False\<rparr>;
          s2 = s1\<lparr>reg := replicate REGISTERS 0\<rparr>;
          s3 = SP_fdel s2;
          s4 = s3\<lparr>PC := 0\<rparr>;
          s5 = s4\<lparr>FL := 0\<rparr>;
          s6 = s5\<lparr>ram := replicate (nat MAX_MEM) 0\<rparr>;
          s7 = IS_fdel (IM_fdel s6);
          s8 = ram_write NULL_INTERRUPT IRET_OPCODE s7
      in fold (\<lambda>i. ram_write (MAX_MEM - int INTERRUPTS + int i) NULL_INTERRUPT)
           [0..<INTERRUPTS] s8)"

definition bare :: cpu where
  "bare = \<lparr>running = False, dunder_running = None, reg = [], PC = 0, IR = 0,
           MAR = 0, MDR = 0, FL = 0, OP_A = Some 0, OP_B = Some 0, ram = [],
           old_IM = None, stdout = []\<rparr>"

definition CPU :: cpu where
  "CPU = cpu_init bare"

text \<open>
  \<^verbatim>\<open>load\<close> resets the CPU and writes a program from address 0. Reading the file and
  finding its lines of eight binary digits belongs to the loader's environment: the
  program is given as the list of the numbers found, in file order.
\<close>

definition load :: "int list \<Rightarrow> cpu \<Rightarrow> cpu result" where
  "load program s =
     for_loop (enumerate 0 program)
       (\<lambda>(address, instruction) s.
          if \<not> int address < STACK_BASE
          then raise (AssertionError ''program too large to fit in memory'') s
          else Inr (ram_write (int address) instruction s))
       (cpu_init s)"

section \<open>The ALU\<close>

text \<open>
  \<open>alu_try\<close> is the body of the \<^verbatim>\<open>try\<close> statement of \<^verbatim>\<open>alu\<close>, \<open>alu\<close> adds its two
  handlers. The handler of \<^verbatim>\<open>ZeroDivisionError\<close> prints a diagnostic and assigns
  \<^verbatim>\<open>self.__running__\<close>, which is the field \<open>dunder_running\<close> and not the flag
  \<open>running\<close> (\<^verbatim>\<open>self._running\<close>) that the execution loop tests.
\<close>

definition alu_try :: "string \<Rightarrow> int option \<Rightarrow> int option \<Rightarrow> cpu \<Rightarrow> cpu result" where
  "alu_try op reg_a reg_b s =
     bindE (reg_get reg_a s) (\<lambda>x.
     bindE (case reg_b of
              None \<Rightarrow> Inr None
            | Some b \<Rightarrow> bindE (reg_get reg_b s) (\<lambda>y. Inr (Some y))) (\<lambda>y.
     case ALU_OP op of
       None \<Rightarrow> raise KeyError s
     | Some f \<Rightarrow>
         (case f x y of
            Inl e \<Rightarrow> raise e s
          | Inr r \<Rightarrow>
              if op = ''CMP'' then Inr (FL_fset r s)
              else
                bindE (reg_put reg_a r s) (\<lambda>s1.
                bindE (reg_get reg_a s1) (\<lambda>z.
                reg_put reg_a (z AND (MAX_MEM - 1)) s1)))))"

definition alu :: "string \<Rightarrow> int option \<Rightarrow> int option \<Rightarrow> cpu \<Rightarrow> cpu result" where
  "alu op reg_a reg_b s =
     (case alu_try op reg_a reg_b s of
        Inr s' \<Rightarrow> Inr s'
      | Inl (e, s') \<Rightarrow>
          if e = ZeroDivisionError then
            Inr (print (''ALU ERROR: '' @ op @ '' by 0 at '' @ str_int (PC s') @ [newline]) s'
                   \<lparr>dunder_running := Some False\<rparr>)
          else raise (SystemError ''Unsupported ALU operation'') s')"

section \<open>Interrupts\<close>

definition interrupt :: "nat \<Rightarrow> cpu \<Rightarrow> cpu result" where
  "interrupt n s =
     (if \<not> n < INTERRUPTS then raise (AssertionError ''invalid interrupt'') s
      else Inr (IS_fset (IS s OR push_bit n 1) s))"

text \<open>
  \<open>service\<close> is the body of the \<^verbatim>\<open>if\<close> inside the loop of \<^verbatim>\<open>check_interrupts\<close>, for
  interrupt number \<open>n\<close> with \<open>mask_bit\<close> the source's \<^verbatim>\<open>bit = 1 << n\<close>, and
  \<open>service_push\<close> the body of its loop that pushes \<open>R0\<close> to \<open>R6\<close>; \<open>check_loop\<close> is
  the loop over the interrupt numbers, which ends at the first interrupt it services.
\<close>

definition service_push :: "nat \<Rightarrow> cpu \<Rightarrow> cpu result" where
  "service_push i s =
     bindE (SP_fset (SP s - 1) s) (\<lambda>s'.
     Inr (ram_write (SP s') (reg s' ! i) s'))"

definition service :: "nat \<Rightarrow> int \<Rightarrow> cpu \<Rightarrow> cpu result" where
  "service n mask_bit s =
     (let s1 = s\<lparr>old_IM := Some (IM s)\<rparr>;
          s2 = IM_fset 0 s1;
          s3 = IS_fset (IS s2 AND (255 XOR mask_bit)) s2 in
      bindE (SP_fset (SP s3 - 1) s3) (\<lambda>s4.
      let s5 = ram_write (SP s4) (PC s4) s4 in
      bindE (SP_fset (SP s5 - 1) s5) (\<lambda>s6.
      let s7 = ram_write (SP s6) (FL s6) s6 in
      bindE (for_loop [0..<REGISTERS - 1] service_push s7) (\<lambda>s8.
      PC_fset (ram s8 ! nat (MAX_MEM - int INTERRUPTS + int n)) s8))))"

primrec check_loop :: "int \<Rightarrow> nat list \<Rightarrow> cpu \<Rightarrow> cpu result" where
  "check_loop maskedInterrupts [] s = Inr s"
| "check_loop maskedInterrupts (n # ns) s =
     (let mask_bit = push_bit n 1 in
      if maskedInterrupts AND mask_bit \<noteq> 0 then service n mask_bit s
      else check_loop maskedInterrupts ns s)"

definition check_interrupts :: "cpu \<Rightarrow> cpu result" where
  "check_interrupts s = check_loop (IM s AND IS s) [0..<8] s"

section \<open>The execution loop\<close>

text \<open>
  One pass of the \<^verbatim>\<open>while\<close> loop of \<^verbatim>\<open>run\<close> polls the clock and the keyboard and then
  processes one instruction. \<open>step\<close> is the second part: the interrupt check,
  \<open>fetch\<close> (the assignment \<^verbatim>\<open>self.IR = self.ram_read(self.PC)\<close>, which decodes),
  \<open>execute\<close> (the call of the ALU or of the opcode's function) and \<open>advance\<close> (the
  advance of \<open>PC\<close> for an opcode whose bit 4 is clear).
\<close>

definition fetch :: "cpu \<Rightarrow> cpu result" where
  "fetch s = (let (v, s1) = ram_read (PC s) s in IR_fset v s1)"

definition execute :: "cpu \<Rightarrow> cpu result" where
  "execute s =
     (if IR s AND ALU_MASK \<noteq> 0 then
        (case ALU (IR s) of
           None \<Rightarrow> raise KeyError s
         | Some op \<Rightarrow> alu op (OP_A s) (OP_B s) s)
      else
        (case OPCODES (IR s) of
           None \<Rightarrow> raise KeyError s
         | Some f \<Rightarrow> f s))"

definition advance :: "cpu \<Rightarrow> cpu result" where
  "advance s =
     (if \<not> (IR s AND 0x10 \<noteq> 0) then PC_fset (PC s + (1 + drop_bit 6 (IR s))) s
      else Inr s)"

definition step :: "cpu \<Rightarrow> cpu result" where
  "step s =
     bindE (check_interrupts s) (\<lambda>s1.
     bindE (fetch s1) (\<lambda>s2.
     bindE (execute s2) (\<lambda>s3.
     advance s3)))"

text \<open>
  The clock and the keyboard are the loop's environment. What they report in one pass
  is a \<open>device\<close>: whether more than a second has passed since the last timer
  interrupt, and the code of the key pressed, if any. \<open>quiet\<close> reports nothing.
\<close>

record device =
  timer_elapsed :: bool
  key :: "int option"

definition quiet :: device where
  "quiet = \<lparr>timer_elapsed = False, key = None\<rparr>"

text \<open>
  \<open>run_loop\<close> is the \<^verbatim>\<open>while\<close> loop, with the reports of the devices as a list (when
  the list is used up the devices stay quiet). The source sets no bound on the number
  of passes; the first argument bounds it here, and \<open>None\<close> means that the bound was
  reached with the loop still running. An exception leaves the loop.
\<close>

fun run_loop :: "nat \<Rightarrow> device list \<Rightarrow> cpu \<Rightarrow> cpu result option" where
  "run_loop 0 ds s = (if running s then None else Some (Inr s))"
| "run_loop (Suc fuel) ds s =
     (if \<not> running s then Some (Inr s)
      else
        (let d = (case ds of [] \<Rightarrow> quiet | d # _ \<Rightarrow> d) in
         case (if timer_elapsed d then interrupt TIMER_INTERRUPT s else Inr s) of
           Inl e \<Rightarrow> Some (Inl e)
         | Inr s1 \<Rightarrow>
             if key d = Some 27 then Some (Inr (s1\<lparr>running := False\<rparr>))
             else
               (case (case key d of
                        None \<Rightarrow> Inr s1
                      | Some c \<Rightarrow> interrupt KEYBOARD_INTERRUPT (ram_write KEY_BUFFER c s1)) of
                  Inl e \<Rightarrow> Some (Inl e)
                | Inr s2 \<Rightarrow>
                    (case step s2 of
                       Inl e \<Rightarrow> Some (Inl e)
                     | Inr s3 \<Rightarrow> run_loop fuel (tl ds) s3))))"

definition run :: "nat \<Rightarrow> device list \<Rightarrow> cpu \<Rightarrow> cpu result option" where
  "run fuel ds s = run_loop fuel ds (s\<lparr>running := True\<rparr>)"

section \<open>Concrete programs\<close>

text \<open>
  Programs as \<^verbatim>\<open>load\<close> receives them. \<open>sum_program\<close> is
  \<^verbatim>\<open>LDI R0,8; LDI R1,9; ADD R0,R1; PRN R0; HLT\<close>.
  \<open>div_zero_program\<close> is \<^verbatim>\<open>DIV R0,R1; PRN R0; HLT\<close>, run with \<open>R1 = 0\<close>.
  \<open>jump_to_sentinel\<close> is \<^verbatim>\<open>LDI R0,247; JMP R0\<close>: it moves \<open>PC\<close> to the
  null-interrupt address, which the setter of \<open>PC\<close> admits. \<open>iret_program\<close> is a
  lone \<^verbatim>\<open>IRET\<close>, and \<open>iret_after_ldi\<close> is \<^verbatim>\<open>LDI R7,200; IRET\<close>, which first moves
  the stack pointer down by a direct register write.
\<close>

definition sum_program :: "int list" where
  "sum_program = [0x82, 0, 8, 0x82, 1, 9, 0xA0, 0, 1, 0x47, 0, 0x01]"

definition div_zero_program :: "int list" where
  "div_zero_program = [0xA3, 0, 1, 0x47, 0, 0x01]"

definition jump_to_sentinel :: "int list" where
  "jump_to_sentinel = [0x82, 0, 247, 0x54, 0]"

definition iret_program :: "int list" where
  "iret_program = [0x13]"

definition iret_after_ldi :: "int list" where
  "iret_after_ldi = [0x82, 7, 200, 0x13]"

text \<open>
  \<open>iret_entry\<close> is the CPU that has run the \<^verbatim>\<open>LDI\<close> of \<open>iret_after_ldi\<close> and
  fetched its \<^verbatim>\<open>IRET\<close>: the state in which the function \<^verbatim>\<open>IRET\<close> is called.
\<close>

definition iret_entry :: "cpu result" where
  "iret_entry = bindE (bindE (load iret_after_ldi CPU) step) fetch"

text \<open>
  \<open>stack_program\<close> is \<^verbatim>\<open>LDI R0,42; PUSH R0; POP R1; PUSH R1; HLT\<close>. \<open>push_entry\<close>
  is the CPU in which its first \<^verbatim>\<open>PUSH\<close> is called (one instruction run, the next
  fetched), \<open>pop_entry\<close> the CPU in which its \<^verbatim>\<open>POP\<close> is called.
\<close>

definition stack_program :: "int list" where
  "stack_program = [0x82, 0, 42, 0x45, 0, 0x46, 1, 0x45, 1, 0x01]"

definition push_entry :: cpu where
  "push_entry = projr (bindE (bindE (load stack_program CPU) step) fetch)"

definition pop_entry :: cpu where
  "pop_entry = projr (bindE (bindE (bindE (load stack_program CPU) step) step) fetch)"

text \<open>
  \<open>irq_program\<close> is \<^verbatim>\<open>LDI R5,1; LDI R6,3; NOP\<close>: it enables interrupt 0 in the
  mask and marks interrupts 0 and 1 pending in the state register. \<open>irq_state\<close> is
  the CPU after its two \<^verbatim>\<open>LDI\<close>; every vector still points to the null-interrupt
  address, where an \<^verbatim>\<open>IRET\<close> stands. \<open>irq_dispatched\<close>, \<open>irq_fetched\<close> and
  \<open>irq_returned\<close> are the CPU after the interrupt check, after the fetch at the
  handler, and after the handler's \<^verbatim>\<open>IRET\<close>.
\<close>

definition irq_program :: "int list" where
  "irq_program = [0x82, 5, 1, 0x82, 6, 3, 0x00]"

definition irq_state :: cpu where
  "irq_state = projr (bindE (bindE (load irq_program CPU) step) step)"

definition irq_dispatched :: cpu where
  "irq_dispatched = projr (check_interrupts irq_state)"

definition irq_fetched :: cpu where
  "irq_fetched = projr (fetch irq_dispatched)"

definition irq_returned :: cpu where
  "irq_returned = projr (IRET irq_fetched)"

text \<open>
  States for the register writes. \<open>sum_loaded\<close> is the CPU with \<open>sum_program\<close>
  loaded, \<open>sum_stepped\<close> the CPU after its first instruction, \<open>sum_finished\<close> after
  its run, and \<open>sum_fetched\<close> the CPU that has fetched its first instruction,
  \<^verbatim>\<open>LDI R0,8\<close>. \<open>sub_state\<close> has \<open>R0 = 0\<close> and \<open>R1 = 1\<close>, so that \<^verbatim>\<open>SUB R0,R1\<close>
  goes below zero; \<open>addi_state\<close> has \<open>R0 = 2\<close> and the operands of \<^verbatim>\<open>ADDI R0,255\<close>,
  which goes above the word width; \<open>ld_state\<close> has the operands of \<^verbatim>\<open>LD R0,R1\<close> with
  \<open>R1\<close> holding the null-interrupt address. \<open>popped\<close> is \<open>pop_entry\<close> after its
  \<^verbatim>\<open>POP\<close>, and \<open>irq_popped\<close> is \<open>irq_fetched\<close> after the first pop of \<^verbatim>\<open>IRET\<close>.
\<close>

definition sum_loaded :: cpu where
  "sum_loaded = projr (load sum_program CPU)"

definition sum_stepped :: cpu where
  "sum_stepped = projr (step sum_loaded)"

definition sum_finished :: cpu where
  "sum_finished = projr (the (run 5 [] sum_loaded))"

definition sum_fetched :: cpu where
  "sum_fetched = projr (fetch sum_loaded)"

definition sub_state :: cpu where
  "sub_state = CPU\<lparr>reg := (reg CPU)[1 := 1]\<rparr>"

definition addi_state :: cpu where
  "addi_state = CPU\<lparr>OP_A := Some 0, OP_B := Some 255, reg := (reg CPU)[0 := 2]\<rparr>"

definition ld_state :: cpu where
  "ld_state = CPU\<lparr>OP_A := Some 0, OP_B := Some 1, reg := (reg CPU)[1 := 247]\<rparr>"

definition popped :: cpu where
  "popped = projr (POP pop_entry)"

definition irq_popped :: cpu where
  "irq_popped = projr (IRET_pop 6 irq_fetched)"

section \<open>Well-formed states\<close>

text \<open>
  The lists of a CPU have a fixed length and hold numbers of the word width, and so
  do \<open>PC\<close> and \<open>FL\<close>: the constructor establishes it and every setter masks.
\<close>

definition word_ok :: "int \<Rightarrow> bool" where
  "word_ok v = (0 \<le> v \<and> v < MAX_MEM)"

definition regs_ok :: "cpu \<Rightarrow> bool" where
  "regs_ok s = (length (reg s) = REGISTERS \<and> list_all word_ok (reg s))"

definition ram_ok :: "cpu \<Rightarrow> bool" where
  "ram_ok s = (length (ram s) = nat MAX_MEM \<and> list_all word_ok (ram s))"

definition state_ok :: "cpu \<Rightarrow> bool" where
  "state_ok s = (regs_ok s \<and> ram_ok s \<and> word_ok (PC s) \<and> word_ok (FL s))"

text \<open>Operand B, when present, is a number of the word width: the decoder masks it.\<close>

definition operand_ok :: "cpu \<Rightarrow> bool" where
  "operand_ok s = (case OP_B s of None \<Rightarrow> True | Some b \<Rightarrow> word_ok b)"

section \<open>Basic facts\<close>

lemma MAX_MEM_eq: "MAX_MEM = 256"
  by (simp add: MAX_MEM_def BITS_def)

lemma STACK_BASE_eq: "STACK_BASE = 244"
  by (simp add: STACK_BASE_def MAX_MEM_eq INTERRUPTS_def BITS_def RESERVED_def)

lemma NULL_INTERRUPT_eq: "NULL_INTERRUPT = 247"
  by (simp add: NULL_INTERRUPT_def MAX_MEM_eq INTERRUPTS_def BITS_def)

lemma REG_eqs: "IM_REG = 5" "IS_REG = 6" "SP_REG = 7"
  by (simp_all add: IM_REG_def IS_REG_def SP_REG_def REGISTERS_def)

text \<open>Masking with \<^verbatim>\<open>MAX_MEM - 1\<close> is reduction modulo \<open>2 ^ 8\<close>, also below zero.\<close>

lemma word_mask: "v AND (MAX_MEM - 1) = v mod 2 ^ 8" for v :: int
proof -
  have "MAX_MEM - 1 = mask 8"
    by (simp add: MAX_MEM_eq mask_eq_exp_minus_1)
  then show ?thesis
    by (simp add: take_bit_eq_mask [symmetric] take_bit_eq_mod)
qed

lemma bindE_simps [simp]:
  "bindE (Inl e) f = Inl e"
  "bindE (Inr x) f = f x"
  "bindE (raise err s) f = raise err s"
  by (simp_all add: bindE_def raise_def)

lemma bindE_Inr_iff: "bindE m f = Inr y \<longleftrightarrow> (\<exists>x. m = Inr x \<and> f x = Inr y)"
  by (cases m) simp_all

lemma bindE_Inl_iff: "bindE m f = Inl e \<longleftrightarrow> (m = Inl e \<or> (\<exists>x. m = Inr x \<and> f x = Inl e))"
  by (cases m) simp_all

lemma for_loop_Inl:
  assumes "\<And>i s e s'. body i s = Inl (e, s') \<Longrightarrow> R e"
  shows "for_loop xs body s = Inl (e, s') \<Longrightarrow> R e"
proof (induction xs arbitrary: s)
  case Nil
  then show ?case by simp
next
  case (Cons i xs)
  then show ?case
    by (auto simp add: bindE_Inl_iff dest: assms)
qed

lemma for_loop_Inr:
  assumes "\<And>i s s'. body i s = Inr s' \<Longrightarrow> f s' = f s"
  shows "for_loop xs body s = Inr s' \<Longrightarrow> f s' = f s"
proof (induction xs arbitrary: s)
  case Nil
  then show ?case by simp
next
  case (Cons i xs)
  then show ?case
    by (auto simp add: bindE_Inr_iff dest!: assms)
qed

lemma word_mask_256: "v AND (MAX_MEM - 1) = v mod 256" for v :: int
  by (simp add: word_mask)

lemma succ_mod_word:
  "0 \<le> p \<Longrightarrow> p < 256 \<Longrightarrow> (p + 1) mod 256 = (if p = 255 then 0 else p + 1)" for p :: int
  by simp

lemma pred_mod_word:
  "0 \<le> p \<Longrightarrow> p < 256 \<Longrightarrow> (p - 1) mod 256 = (if p = 0 then 255 else p - 1)" for p :: int
  by (simp add: mod_pos_pos_trivial)

lemma mod_word_id: "0 \<le> p \<Longrightarrow> p < 256 \<Longrightarrow> p mod 256 = p" for p :: int
  by simp

lemma regs_ok_nth: "regs_ok s \<Longrightarrow> i < 8 \<Longrightarrow> 0 \<le> reg s ! i \<and> reg s ! i < 256"
  by (simp add: regs_ok_def list_all_length word_ok_def MAX_MEM_eq REGISTERS_def)

lemma regs_ok_length: "regs_ok s \<Longrightarrow> length (reg s) = 8"
  by (simp add: regs_ok_def REGISTERS_def)

lemma ram_ok_nth: "ram_ok s \<Longrightarrow> i < 256 \<Longrightarrow> 0 \<le> ram s ! i \<and> ram s ! i < 256"
  by (simp add: ram_ok_def list_all_length word_ok_def MAX_MEM_eq)

lemma ram_ok_length: "ram_ok s \<Longrightarrow> length (ram s) = 256"
  by (simp add: ram_ok_def MAX_MEM_eq)

text \<open>The memory accesses and the two checked setters, with the masks as remainders.\<close>

lemma ram_read_eq:
  "ram_read a s =
     (ram s ! nat (a mod 256) mod 256,
      s\<lparr>MAR := a mod 256, MDR := ram s ! nat (a mod 256) mod 256\<rparr>)"
  by (simp add: ram_read_def MAR_fset_def MDR_fset_def word_mask_256 Let_def)

lemma ram_write_eq:
  "ram_write a v s =
     s\<lparr>MAR := a mod 256, MDR := v mod 256, ram := (ram s)[nat (a mod 256) := v mod 256]\<rparr>"
  by (simp add: ram_write_def MAR_fset_def MDR_fset_def word_mask_256 Let_def)

lemma SP_fset_mod:
  "SP_fset v s =
     (if v mod 256 \<le> 244 \<and>
         (PC s + drop_bit 6 (IR s) < v mod 256 \<or> PC s + drop_bit 6 (IR s) = 247)
      then Inr (s\<lparr>reg := (reg s)[7 := v mod 256]\<rparr>)
      else Inl (AssertionError
                 (if v mod 256 \<le> 244 then ''stack cannot overlap executing code''
                  else ''stack pointer out of range''), s))"
  by (auto simp add: SP_fset_def word_mask_256 raise_def Let_def STACK_BASE_eq NULL_INTERRUPT_eq
      REG_eqs)

lemma PC_fset_mod:
  "PC_fset v s =
     (if reg s ! 7 \<le> v mod 256 \<and> v mod 256 \<noteq> 247
      then Inl (AssertionError ''invalid program counter'', s)
      else Inr (s\<lparr>PC := v mod 256\<rparr>))"
  by (auto simp add: PC_fset_def word_mask_256 raise_def Let_def SP_def REG_eqs NULL_INTERRUPT_eq)

lemma SP_fset_Inl: "SP_fset v s = Inl (e, s') \<Longrightarrow> (\<exists>msg. e = AssertionError msg) \<and> s' = s"
  by (auto simp add: SP_fset_mod split: if_splits)

lemma PC_fset_Inl: "PC_fset v s = Inl (e, s') \<Longrightarrow> (\<exists>msg. e = AssertionError msg) \<and> s' = s"
  by (auto simp add: PC_fset_mod split: if_splits)

lemma SP_fset_old_IM: "SP_fset v s = Inr s' \<Longrightarrow> old_IM s' = old_IM s"
  by (auto simp add: SP_fset_mod split: if_splits)

lemma PC_fset_old_IM: "PC_fset v s = Inr s' \<Longrightarrow> old_IM s' = old_IM s"
  by (auto simp add: PC_fset_mod split: if_splits)

lemma py_index_nonneg:
  "0 \<le> k \<Longrightarrow> k < int (length xs) \<Longrightarrow> py_index xs (Some k) s = Inr (nat k)"
  by (simp add: py_index_def)

lemma reg_get_nonneg:
  "0 \<le> k \<Longrightarrow> k < int (length (reg s)) \<Longrightarrow> reg_get (Some k) s = Inr (reg s ! nat k)"
  by (simp add: reg_get_def py_index_nonneg)

lemma reg_put_nonneg:
  "0 \<le> k \<Longrightarrow> k < int (length (reg s)) \<Longrightarrow>
   reg_put (Some k) v s = Inr (s\<lparr>reg := (reg s)[nat k := v]\<rparr>)"
  by (simp add: reg_put_def py_index_nonneg)

lemma reg_CPU_length: "(0::int) < int (length (reg CPU))" "(1::int) < int (length (reg CPU))"
  by code_simp+

section \<open>The ALU on a zero divisor\<close>

lemma ALU_OP_DIV:
  "ALU_OP ''DIV'' = Some (binary (\<lambda>x y. if y = 0 then Inl ZeroDivisionError else Inr (x div y)))"
  by (simp add: ALU_OP_def)

lemma ALU_OP_MOD:
  "ALU_OP ''MOD'' = Some (binary (\<lambda>x y. if y = 0 then Inl ZeroDivisionError else Inr (x mod y)))"
  by (simp add: ALU_OP_def)

lemma alu_try_zero_divisor:
  assumes "op = ''DIV'' \<or> op = ''MOD''"
    and "0 \<le> a" "a < int (length (reg s))" "0 \<le> b" "b < int (length (reg s))"
    and "reg s ! nat b = 0"
  shows "alu_try op (Some a) (Some b) s = Inl (ZeroDivisionError, s)"
  using assms(1)
proof
  assume "op = ''DIV''"
  with assms(2-) show ?thesis
    by (simp add: alu_try_def reg_get_nonneg ALU_OP_DIV binary_def raise_def)
next
  assume "op = ''MOD''"
  with assms(2-) show ?thesis
    by (simp add: alu_try_def reg_get_nonneg ALU_OP_MOD binary_def raise_def)
qed

lemma alu_zero_divisor:
  assumes "op = ''DIV'' \<or> op = ''MOD''"
    and "0 \<le> a" "a < int (length (reg s))" "0 \<le> b" "b < int (length (reg s))"
    and "reg s ! nat b = 0"
  shows "alu op (Some a) (Some b) s =
         Inr (s\<lparr>stdout := stdout s @ ''ALU ERROR: '' @ op @ '' by 0 at '' @ str_int (PC s) @ [newline],
                 dunder_running := Some False\<rparr>)"
  by (simp add: alu_def alu_try_zero_divisor [OF assms] print_def)

text \<open>
  C1. The claim: when the ALU executes \<^verbatim>\<open>DIV\<close> or \<^verbatim>\<open>MOD\<close> with a zero divisor, a
  diagnostic naming the operation and \<open>PC\<close> is printed and the execution loop halts.
  The code prints the diagnostic but assigns \<^verbatim>\<open>self.__running__\<close>, not the flag
  \<^verbatim>\<open>self._running\<close> that the loop tests, so the loop goes on. On
  \<open>div_zero_program\<close>, after the pass that executes \<^verbatim>\<open>DIV R0,R1\<close> with \<open>R1 = 0\<close>
  the diagnostic is printed, \<open>running\<close> is still true, \<open>PC\<close> has advanced to the next
  instruction, and one pass was not enough to leave the loop; the run goes on to print
  \<open>R0\<close> and stops only at \<^verbatim>\<open>HLT\<close>.
\<close>

theorem div_by_zero_loop_goes_on:
  "(case load div_zero_program CPU of
      Inl e \<Rightarrow> False
    | Inr s \<Rightarrow>
        reg s ! 1 = 0 \<and>
        (case step (s\<lparr>running := True\<rparr>) of
           Inl e \<Rightarrow> False
         | Inr s1 \<Rightarrow>
             stdout s1 = ''ALU ERROR: DIV by 0 at 0'' @ [newline] \<and>
             dunder_running s1 = Some False \<and> running s1 \<and> PC s1 = 3) \<and>
        run 1 [] s = None \<and>
        (case run 3 [] s of
           Some (Inr s') \<Rightarrow>
             \<not> running s' \<and> IR s' = 0x01 \<and>
             stdout s' = ''ALU ERROR: DIV by 0 at 0'' @ [newline] @ ''0'' @ [newline]
         | _ \<Rightarrow> False))"
  by code_simp

text \<open>
  C9. When the ALU executes \<^verbatim>\<open>DIV\<close> or \<^verbatim>\<open>MOD\<close> with a zero divisor, the call
  returns normally and the registers (the destination among them), \<open>FL\<close>, \<open>PC\<close>,
  \<open>SP\<close> and the memory are what they were before it.
\<close>

theorem zero_divisor_preserves_state:
  assumes "op = ''DIV'' \<or> op = ''MOD''"
    and "0 \<le> a" "a < int (length (reg s))" "0 \<le> b" "b < int (length (reg s))"
    and "reg s ! nat b = 0"
  shows "\<exists>s'. alu op (Some a) (Some b) s = Inr s' \<and>
           reg s' = reg s \<and> FL s' = FL s \<and> PC s' = PC s \<and> SP s' = SP s \<and> ram s' = ram s"
  by (simp add: alu_zero_divisor [OF assms] SP_def)

theorem zero_divisor_preserves_state_witness:
  "(0::int) \<le> 0 \<and> 0 < int (length (reg CPU)) \<and> (0::int) \<le> 1 \<and> 1 < int (length (reg CPU)) \<and>
   reg CPU ! nat 1 = 0 \<and>
   (\<exists>s'. alu ''DIV'' (Some 0) (Some 1) CPU = Inr s' \<and>
      reg s' = reg CPU \<and> FL s' = FL CPU \<and> PC s' = PC CPU \<and> SP s' = SP CPU \<and> ram s' = ram CPU)"
proof -
  have z: "reg CPU ! nat 1 = 0"
    by code_simp
  have "''DIV'' = ''DIV'' \<or> ''DIV'' = ''MOD''"
    by simp
  from zero_divisor_preserves_state [OF this _ reg_CPU_length(1) _ reg_CPU_length(2) z]
  have "\<exists>s'. alu ''DIV'' (Some 0) (Some 1) CPU = Inr s' \<and>
      reg s' = reg CPU \<and> FL s' = FL CPU \<and> PC s' = PC CPU \<and> SP s' = SP CPU \<and> ram s' = ram CPU"
    by simp
  with z reg_CPU_length show ?thesis
    by simp
qed

section \<open>The compare operation\<close>

lemma alu_CMP:
  assumes "0 \<le> a" "a < int (length (reg s))" "0 \<le> b" "b < int (length (reg s))"
  shows "alu ''CMP'' (Some a) (Some b) s =
         Inr (s\<lparr>FL := (if reg s ! nat a = reg s ! nat b then 1
                        else if reg s ! nat a > reg s ! nat b then 2 else 4)\<rparr>)"
  using assms
  by (simp add: alu_def alu_try_def reg_get_nonneg ALU_OP_def binary_def FL_fset_def word_mask)

text \<open>
  C6. For all register values, \<^verbatim>\<open>CMP\<close> writes into \<open>FL\<close> exactly one of 1 (equal),
  2 (the first greater) and 4 (the first less), and \<^verbatim>\<open>CMP\<close> of a register with itself
  writes 1.
\<close>

theorem CMP_sets_one_flag:
  assumes "0 \<le> a" "a < int (length (reg s))" "0 \<le> b" "b < int (length (reg s))"
  shows "\<exists>s'. alu ''CMP'' (Some a) (Some b) s = Inr s' \<and>
           FL s' \<in> {1, 2, 4} \<and>
           FL s' = (if reg s ! nat a = reg s ! nat b then 1
                    else if reg s ! nat a > reg s ! nat b then 2 else 4) \<and>
           (a = b \<longrightarrow> FL s' = 1)"
  unfolding alu_CMP [OF assms] by simp

theorem CMP_sets_one_flag_witness:
  "(0::int) \<le> 0 \<and> 0 < int (length (reg CPU)) \<and>
   (\<exists>s'. alu ''CMP'' (Some 0) (Some 0) CPU = Inr s' \<and> FL s' = 1)"
proof -
  from CMP_sets_one_flag [OF order_refl reg_CPU_length(1) order_refl reg_CPU_length(1)]
  obtain s' where "alu ''CMP'' (Some 0) (Some 0) CPU = Inr s'" "FL s' = 1"
    by auto
  with reg_CPU_length(1) show ?thesis
    by auto
qed

section \<open>The setters of the program counter and of the stack pointer\<close>

text \<open>
  C7. The setter of \<open>PC\<close> rejects a value \<open>v\<close> exactly when \<open>v\<close>, reduced to the word
  width, is at least \<open>SP\<close> and is not the null-interrupt address. The rejection is an
  \<^verbatim>\<open>AssertionError\<close> raised with the CPU as it was, so \<open>PC\<close> is unchanged; otherwise the
  reduced value is stored.
\<close>

theorem PC_fset_rejects_iff:
  "PC_fset v s =
     (if SP s \<le> v mod 2 ^ 8 \<and> v mod 2 ^ 8 \<noteq> NULL_INTERRUPT
      then Inl (AssertionError ''invalid program counter'', s)
      else Inr (s\<lparr>PC := v mod 2 ^ 8\<rparr>))"
  by (simp add: PC_fset_mod SP_def REG_eqs NULL_INTERRUPT_eq)

text \<open>
  C3, as the code has it. The setter of \<open>SP\<close> accepts a value \<open>v\<close> exactly when \<open>v\<close>,
  reduced to the word width, is at most \<open>STACK_BASE\<close> and the address \<open>PC\<close> plus the
  operand count of \<open>IR\<close> (\<^verbatim>\<open>IR >> 6\<close>) is below it or is itself the null-interrupt
  address. A rejection is an \<^verbatim>\<open>AssertionError\<close> raised with the CPU as it was, so \<open>SP\<close> is
  unchanged. The waiver compares the sum with the null-interrupt address, not \<open>PC\<close>.
\<close>

theorem SP_fset_accepts_iff:
  "SP_fset v s =
     (if v mod 2 ^ 8 \<le> STACK_BASE \<and>
         (PC s + drop_bit 6 (IR s) < v mod 2 ^ 8 \<or> PC s + drop_bit 6 (IR s) = NULL_INTERRUPT)
      then Inr (s\<lparr>reg := (reg s)[SP_REG := v mod 2 ^ 8]\<rparr>)
      else Inl (AssertionError
                 (if v mod 2 ^ 8 \<le> STACK_BASE then ''stack cannot overlap executing code''
                  else ''stack pointer out of range''), s))"
  by (simp add: SP_fset_mod REG_eqs STACK_BASE_eq NULL_INTERRUPT_eq)

text \<open>
  The claim waives the overlap condition when \<open>PC\<close> is the null-interrupt address.
  After \<open>jump_to_sentinel\<close> has run its two instructions, \<open>PC\<close> is that address and
  \<open>IR\<close> holds \<^verbatim>\<open>JMP\<close>, an opcode with one operand; the value 243 (what the interrupt
  check would store next) is in range, and the setter rejects it.
\<close>

theorem SP_fset_sentinel_counterexample:
  "(case bindE (bindE (load jump_to_sentinel CPU) step) step of
      Inl e \<Rightarrow> False
    | Inr s \<Rightarrow>
        PC s = NULL_INTERRUPT \<and> 0 \<le> (243::int) mod 2 ^ 8 \<and> (243::int) mod 2 ^ 8 \<le> STACK_BASE \<and>
        SP_fset 243 s = Inl (AssertionError ''stack cannot overlap executing code'', s))"
  by code_simp

section \<open>Running a program\<close>

lemma run_loop_halted: "\<not> running s \<Longrightarrow> run_loop n ds s = Some (Inr s)"
  by (cases n) simp_all

lemma run_loop_more_fuel:
  "run_loop n ds s = Some r \<Longrightarrow> run_loop (n + k) ds s = Some r"
proof (induction n arbitrary: ds s)
  case 0
  then show ?case
    by (simp add: run_loop_halted split: if_splits)
next
  case (Suc n)
  show ?case
  proof (cases "running s")
    case False
    with Suc.prems show ?thesis
      by simp
  next
    case True
    with Suc.prems show ?thesis
      by (auto simp add: Let_def Suc.IH split: sum.splits if_splits option.splits)
  qed
qed

lemma sum_program_five_passes:
  "(case load sum_program CPU of
      Inl e \<Rightarrow> False
    | Inr s \<Rightarrow>
        (case run 5 [] s of
           Some (Inr s') \<Rightarrow>
             stdout s' = ''17'' @ [newline] \<and> \<not> running s' \<and> IR s' = 0x01 \<and>
             reg s' ! 0 = 17 \<and> reg s' ! 1 = 9
         | _ \<Rightarrow> False))"
  by code_simp

text \<open>
  C4. Loaded into a new CPU and run with quiet devices, \<open>sum_program\<close> leaves the
  execution loop after five passes (and so for every bound of at least five) without
  an exception, stopped by \<^verbatim>\<open>HLT\<close>; the text printed is \<open>17\<close> and a line end, and
  \<open>R0 = 17\<close>, \<open>R1 = 9\<close>.
\<close>

theorem sum_program_prints_17:
  "\<exists>s s'. load sum_program CPU = Inr s \<and> run (5 + k) [] s = Some (Inr s') \<and>
     stdout s' = ''17'' @ [newline] \<and> \<not> running s' \<and> IR s' = 0x01 \<and>
     reg s' ! 0 = 17 \<and> reg s' ! 1 = 9"
proof -
  obtain s where l: "load sum_program CPU = Inr s"
    using sum_program_five_passes by (cases "load sum_program CPU") auto
  with sum_program_five_passes have c:
    "case run 5 [] s of
       Some (Inr s') \<Rightarrow>
         stdout s' = ''17'' @ [newline] \<and> \<not> running s' \<and> IR s' = 0x01 \<and>
         reg s' ! 0 = 17 \<and> reg s' ! 1 = 9
     | _ \<Rightarrow> False"
    by simp
  then obtain x where x: "run 5 [] s = Some x"
    by (cases "run 5 [] s") auto
  with c obtain s' where s': "x = Inr s'"
    by (cases x) auto
  from x s' have r: "run 5 [] s = Some (Inr s')"
    by simp
  with c have p: "stdout s' = ''17'' @ [newline] \<and> \<not> running s' \<and> IR s' = 0x01 \<and>
        reg s' ! 0 = 17 \<and> reg s' ! 1 = 9"
    by simp
  from r have "run (5 + k) [] s = Some (Inr s')"
    unfolding run_def by (rule run_loop_more_fuel)
  with l p show ?thesis
    by blast
qed

section \<open>Return from interrupt with no interrupt dispatched\<close>

lemma IRET_pop_Inl: "IRET_pop i s = Inl (e, s') \<Longrightarrow> \<exists>msg. e = AssertionError msg"
  by (auto simp add: IRET_pop_def ram_read_eq Let_def dest: SP_fset_Inl)

lemma IRET_pop_old_IM: "IRET_pop i s = Inr s' \<Longrightarrow> old_IM s' = old_IM s"
  by (auto simp add: IRET_pop_def ram_read_eq Let_def dest!: SP_fset_old_IM)

lemma IRET_loop_Inl:
  assumes "for_loop xs IRET_pop s = Inl (e, s')"
  shows "\<exists>msg. e = AssertionError msg"
  using for_loop_Inl [where body = IRET_pop and R = "\<lambda>e. \<exists>msg. e = AssertionError msg",
      OF IRET_pop_Inl assms] .

lemma IRET_loop_old_IM:
  assumes "for_loop xs IRET_pop s = Inr s'"
  shows "old_IM s' = old_IM s"
  using for_loop_Inr [where body = IRET_pop and f = old_IM, OF IRET_pop_old_IM assms] .

lemma IRET_pops_Inl:
  assumes "IRET_pops s = Inl (e, s')"
  shows "\<exists>msg. e = AssertionError msg"
  using assms
  by (auto simp add: IRET_pops_def bindE_Inl_iff ram_read_eq Let_def
      dest: IRET_loop_Inl SP_fset_Inl PC_fset_Inl)

lemma IRET_pops_old_IM:
  assumes "IRET_pops s = Inr s'"
  shows "old_IM s' = old_IM s"
  using assms
  by (auto simp add: IRET_pops_def bindE_Inr_iff ram_read_eq Let_def FL_fset_def
        dest!: SP_fset_old_IM PC_fset_old_IM IRET_loop_old_IM)

lemma iret_entry_facts:
  "\<not> isl iret_entry \<and> old_IM (projr iret_entry) = None \<and>
   IR (projr iret_entry) = IRET_OPCODE \<and> \<not> isl (IRET_pops (projr iret_entry))"
  by code_simp

text \<open>
  C10, as the code has it. Called when \<^verbatim>\<open>check_interrupts\<close> has never dispatched an
  interrupt (the attribute \<^verbatim>\<open>_old_IM\<close> is absent), \<^verbatim>\<open>IRET\<close> never completes. Its pops
  run first: when one of them fails the check of the \<open>SP\<close> or \<open>PC\<close> setter the
  exception is that \<^verbatim>\<open>AssertionError\<close>, and only when all nine pass is it the
  \<^verbatim>\<open>AttributeError\<close> of the missing attribute.
\<close>

theorem IRET_without_dispatch:
  assumes "old_IM s = None"
  shows "\<exists>e s'. IRET s = Inl (e, s') \<and>
           (if isl (IRET_pops s) then (\<exists>msg. e = AssertionError msg)
            else e = AttributeError ''_old_IM'')"
proof (cases "IRET_pops s")
  case (Inl x)
  obtain e s' where x: "x = (e, s')"
    by (cases x)
  with Inl have "\<exists>msg. e = AssertionError msg"
    by (auto dest: IRET_pops_Inl)
  with Inl x show ?thesis
    by (simp add: IRET_def)
next
  case (Inr s7)
  then have "old_IM s7 = None"
    using assms by (simp add: IRET_pops_old_IM)
  with Inr show ?thesis
    by (simp add: IRET_def raise_def)
qed

theorem IRET_without_dispatch_witness:
  "old_IM (projr iret_entry) = None \<and>
   (\<exists>s'. IRET (projr iret_entry) = Inl (AttributeError ''_old_IM'', s'))"
  using IRET_without_dispatch [of "projr iret_entry"] iret_entry_facts
  by auto

text \<open>
  The claim says that the failure is the attribute-lookup error in every run without
  a dispatch. \<open>iret_program\<close> on a new CPU is such a run: the stack is empty, the
  first pop moves \<open>SP\<close> above \<open>STACK_BASE\<close>, and the run ends in the
  \<^verbatim>\<open>AssertionError\<close> of the stack-pointer range check.
\<close>

theorem IRET_without_dispatch_counterexample:
  "(case load iret_program CPU of
      Inl e \<Rightarrow> False
    | Inr s \<Rightarrow>
        old_IM s = None \<and>
        (case run 1 [] s of
           Some (Inl (e, s')) \<Rightarrow>
             IR s' = IRET_OPCODE \<and> old_IM s' = None \<and>
             e = AssertionError ''stack pointer out of range''
         | _ \<Rightarrow> False))"
  by code_simp

section \<open>Push and pop\<close>

lemma PUSH_then_POP:
  assumes ok: "regs_ok s" and len: "length (ram s) = nat MAX_MEM"
    and a: "OP_A s = Some a" "0 \<le> a" "a < 8"
    and sp: "1 \<le> SP s" "SP s \<le> STACK_BASE"
    and pc: "PC s + drop_bit 6 (IR s) < SP s - 1 \<or> PC s + drop_bit 6 (IR s) = NULL_INTERRUPT"
  shows "\<exists>s2. bindE (PUSH s) POP = Inr s2 \<and> reg s2 ! nat a = reg s ! nat a \<and> SP s2 = SP s"
proof -
  define p where "p = reg s ! 7"
  have p: "1 \<le> p" "p \<le> 244"
    using sp by (simp_all add: p_def SP_def REG_eqs STACK_BASE_eq)
  have l: "length (reg s) = 8"
    using ok by (rule regs_ok_length)
  have ra: "0 \<le> reg s ! nat a" "reg s ! nat a < 256"
    using regs_ok_nth [OF ok, of "nat a"] a by simp_all
  have q: "PC s + drop_bit 6 (IR s) < p - 1 \<or> PC s + drop_bit 6 (IR s) = 247"
    using pc by (simp add: p_def SP_def REG_eqs NULL_INTERRUPT_eq)
  have push: "PUSH s = Inr (s\<lparr>reg := (reg s)[7 := p - 1], MAR := p - 1,
      MDR := (reg s)[7 := p - 1] ! nat a,
      ram := (ram s)[nat (p - 1) := (reg s)[7 := p - 1] ! nat a]\<rparr>)"
    using p l a ra q
    by (cases "nat a = 7")
      (simp_all add: PUSH_def SP_fset_mod SP_def REG_eqs p_def [symmetric] reg_get_nonneg
        ram_write_eq)
  show ?thesis
    using p l a ra q len
    by (cases "nat a = 7")
      (auto simp add: push POP_def ram_read_eq SP_fset_mod SP_def REG_eqs p_def [symmetric]
        reg_put_nonneg MAX_MEM_eq)
qed


lemma POP_then_PUSH:
  assumes ok: "regs_ok s" "ram_ok s"
    and a: "OP_A s = Some a" "0 \<le> a" "a < 8"
    and run: "bindE (POP s) PUSH = Inr s2"
  shows "ram s2 ! nat (SP s) = ram s ! nat (SP s)"
proof -
  define p where "p = reg s ! 7"
  define v where "v = ram s ! nat p"
  have p: "0 \<le> p" "p < 256"
    using regs_ok_nth [OF ok(1), of 7] by (simp_all add: p_def)
  have v: "0 \<le> v" "v < 256"
    using ram_ok_nth [OF ok(2), of "nat p"] p by (simp_all add: v_def)
  have l: "length (reg s) = 8"
    using ok(1) by (rule regs_ok_length)
  have lr: "length (ram s) = 256"
    using ok(2) by (rule ram_ok_length)
  from run obtain s1 where pop: "POP s = Inr s1" and push: "PUSH s1 = Inr s2"
    by (auto simp add: bindE_Inr_iff)
  show ?thesis
  proof (cases "nat a = 7")
    case True
    from pop True a l p v have s1:
      "s1 = s\<lparr>MAR := p, MDR := v, reg := (reg s)[7 := (v + 1) mod 256]\<rparr>"
      by (auto simp add: POP_def ram_read_eq SP_fset_mod SP_def REG_eqs reg_put_nonneg
          p_def [symmetric] v_def [symmetric] mod_word_id split: if_splits)
    from push True a l v have "ram s2 = (ram s)[nat v := v]"
      by (auto simp add: s1 PUSH_def ram_write_eq SP_fset_mod SP_def REG_eqs reg_get_nonneg
          mod_word_id succ_mod_word pred_mod_word bindE_Inr_iff split: if_splits)
    with lr v p show ?thesis
      by (cases "nat v = nat p") (simp_all add: SP_def REG_eqs p_def [symmetric] v_def)
  next
    case False
    from pop False a l p v have s1: "s1 = s\<lparr>MAR := p, MDR := v, reg := (reg s)[nat a := v, 7 := (p + 1) mod 256]\<rparr>"
      by (auto simp add: POP_def ram_read_eq SP_fset_mod SP_def REG_eqs reg_put_nonneg
          p_def [symmetric] v_def [symmetric] mod_word_id split: if_splits)
    from push False a l p v have "ram s2 = (ram s)[nat p := v]"
      by (auto simp add: s1 PUSH_def ram_write_eq SP_fset_mod SP_def REG_eqs reg_get_nonneg
          mod_word_id succ_mod_word pred_mod_word bindE_Inr_iff split: if_splits)
    with lr p show ?thesis
      by (simp add: SP_def REG_eqs p_def [symmetric] v_def)
  qed
qed

text \<open>
  C5. With room on the stack (\<open>SP\<close> between 1 and \<open>STACK_BASE\<close>, and the address the
  setter of \<open>SP\<close> compares below \<open>SP - 1\<close> or exempt), \<^verbatim>\<open>PUSH\<close> of a register followed
  by \<^verbatim>\<open>POP\<close> into it succeeds and leaves the register and \<open>SP\<close> as they were.
  Conversely, whenever \<^verbatim>\<open>POP\<close> into a register followed by \<^verbatim>\<open>PUSH\<close> of it succeeds,
  the memory cell at the popped address holds its original value. Both hold for every
  register, the stack pointer \<open>R7\<close> included.
\<close>

theorem PUSH_POP_inverse:
  "(regs_ok s \<and> length (ram s) = nat MAX_MEM \<and> OP_A s = Some a \<and> 0 \<le> a \<and> a < 8 \<and>
    1 \<le> SP s \<and> SP s \<le> STACK_BASE \<and>
    (PC s + drop_bit 6 (IR s) < SP s - 1 \<or> PC s + drop_bit 6 (IR s) = NULL_INTERRUPT)
    \<longrightarrow> (\<exists>s2. bindE (PUSH s) POP = Inr s2 \<and> reg s2 ! nat a = reg s ! nat a \<and> SP s2 = SP s)) \<and>
   (regs_ok t \<and> ram_ok t \<and> OP_A t = Some c \<and> 0 \<le> c \<and> c < 8 \<and>
    bindE (POP t) PUSH = Inr t2
    \<longrightarrow> ram t2 ! nat (SP t) = ram t ! nat (SP t))"
  using PUSH_then_POP [of s a] POP_then_PUSH [of t c t2] by blast

lemma stack_entry_facts:
  "regs_ok push_entry \<and> length (ram push_entry) = nat MAX_MEM \<and> OP_A push_entry = Some 0 \<and>
   1 \<le> SP push_entry \<and> SP push_entry \<le> STACK_BASE \<and>
   PC push_entry + drop_bit 6 (IR push_entry) < SP push_entry - 1 \<and>
   reg push_entry ! 0 = 42 \<and>
   regs_ok pop_entry \<and> ram_ok pop_entry \<and> OP_A pop_entry = Some 1 \<and>
   \<not> isl (bindE (POP pop_entry) PUSH) \<and> ram pop_entry ! nat (SP pop_entry) = 42"
  by code_simp

theorem PUSH_POP_inverse_witness:
  "regs_ok push_entry \<and> OP_A push_entry = Some 0 \<and> reg push_entry ! 0 = 42 \<and>
   (\<exists>s2. bindE (PUSH push_entry) POP = Inr s2 \<and> reg s2 ! nat 0 = reg push_entry ! nat 0 \<and>
      SP s2 = SP push_entry) \<and>
   regs_ok pop_entry \<and> ram_ok pop_entry \<and> OP_A pop_entry = Some 1 \<and>
   (\<exists>t2. bindE (POP pop_entry) PUSH = Inr t2 \<and>
      ram t2 ! nat (SP pop_entry) = ram pop_entry ! nat (SP pop_entry))"
proof -
  obtain t2 where t2: "bindE (POP pop_entry) PUSH = Inr t2"
    using stack_entry_facts by (cases "bindE (POP pop_entry) PUSH") auto
  from PUSH_POP_inverse [of push_entry 0 pop_entry 1 t2] stack_entry_facts t2
  show ?thesis
    by auto
qed

section \<open>Interrupt dispatch and return\<close>

lemma service_push_Inr:
  assumes "service_push i s = Inr s'"
    and "0 \<le> reg s ! 7" "reg s ! 7 < 256" "length (reg s) = 8" "i < 7"
  shows "1 \<le> reg s ! 7 \<and> reg s ! 7 \<le> 245 \<and>
         reg s' = (reg s)[7 := reg s ! 7 - 1] \<and>
         ram s' = (ram s)[nat (reg s ! 7 - 1) := reg s ! i mod 256] \<and>
         PC s' = PC s \<and> IR s' = IR s \<and> FL s' = FL s \<and> old_IM s' = old_IM s"
  using assms
  by (auto simp add: service_push_def SP_fset_mod SP_def REG_eqs ram_write_eq bindE_Inr_iff
      pred_mod_word split: if_splits)

lemma service_push_loop:
  "for_loop xs service_push s = Inr s' \<Longrightarrow>
   0 \<le> reg s ! 7 \<Longrightarrow> reg s ! 7 < 256 \<Longrightarrow> length (reg s) = 8 \<Longrightarrow> length (ram s) = 256 \<Longrightarrow>
   \<forall>i\<in>set xs. i < 7 \<Longrightarrow>
     int (length xs) \<le> reg s ! 7 \<and>
     reg s' = (reg s)[7 := reg s ! 7 - int (length xs)] \<and>
     length (ram s') = 256 \<and>
     (\<forall>k<length xs. ram s' ! nat (reg s ! 7 - 1 - int k) = reg s ! (xs ! k) mod 256) \<and>
     (\<forall>a. reg s ! 7 \<le> int a \<longrightarrow> ram s' ! a = ram s ! a) \<and>
     PC s' = PC s \<and> IR s' = IR s \<and> FL s' = FL s \<and> old_IM s' = old_IM s"
proof (induction xs arbitrary: s)
  case Nil
  then show ?case
    by simp
next
  case (Cons i xs)
  define p where "p = reg s ! 7"
  from Cons.prems obtain s1 where
    s1: "service_push i s = Inr s1" and rest: "for_loop xs service_push s1 = Inr s'"
    by (auto simp add: bindE_Inr_iff)
  from Cons.prems have i: "i < 7" and xs: "\<forall>j\<in>set xs. j < 7"
    by simp_all
  from service_push_Inr [OF s1 Cons.prems(2,3,4) i]
  have p: "1 \<le> p" "p \<le> 245"
    and r1: "reg s1 = (reg s)[7 := p - 1]"
    and m1: "ram s1 = (ram s)[nat (p - 1) := reg s ! i mod 256]"
    and c1: "PC s1 = PC s" "IR s1 = IR s" "FL s1 = FL s" "old_IM s1 = old_IM s"
    by (simp_all add: p_def)
  have sp1: "reg s1 ! 7 = p - 1"
    using Cons.prems(4) by (simp add: r1)
  have "0 \<le> reg s1 ! 7" "reg s1 ! 7 < 256" "length (reg s1) = 8" "length (ram s1) = 256"
    using p Cons.prems(4,5) by (simp_all add: sp1 r1 m1)
  from Cons.IH [OF rest this xs]
  have ih: "int (length xs) \<le> p - 1"
    "reg s' = (reg s1)[7 := p - 1 - int (length xs)]"
    "length (ram s') = 256"
    "\<forall>k<length xs. ram s' ! nat (p - 1 - 1 - int k) = reg s1 ! (xs ! k) mod 256"
    "\<forall>a. p - 1 \<le> int a \<longrightarrow> ram s' ! a = ram s1 ! a"
    "PC s' = PC s1" "IR s' = IR s1" "FL s' = FL s1" "old_IM s' = old_IM s1"
    by (simp_all add: sp1)
  have top: "ram s' ! nat (p - 1) = reg s ! i mod 256"
    using ih(5) p Cons.prems(5) by (simp add: m1)
  have below: "ram s' ! nat (p - 1 - int k) = reg s ! ((i # xs) ! k) mod 256"
    if k: "k < length (i # xs)" for k
  proof (cases k)
    case 0
    with top show ?thesis
      by simp
  next
    case (Suc k')
    with k have k': "k' < length xs"
      by simp
    then have "xs ! k' < 7"
      using xs by simp
    then have "reg s1 ! (xs ! k') = reg s ! (xs ! k')"
      by (simp add: r1)
    with ih(4) k' have "ram s' ! nat (p - 1 - 1 - int k') = reg s ! (xs ! k') mod 256"
      by simp
    moreover have "p - 1 - int k = p - 1 - 1 - int k'"
      using Suc by simp
    moreover have "(i # xs) ! k = xs ! k'"
      using Suc by simp
    ultimately show ?thesis
      by (simp only:)
  qed
  have above: "ram s' ! a = ram s ! a" if a: "p \<le> int a" for a
  proof -
    from a have "ram s' ! a = ram s1 ! a"
      using ih(5) by simp
    also from a p have "\<dots> = ram s ! a"
      by (simp add: m1)
    finally show ?thesis .
  qed
  show ?case
    using ih(1,3) below above c1 ih(6-9)
    by (simp add: p_def [symmetric] ih(2) r1 algebra_simps)
qed


lemma IRET_pop_Inr:
  assumes "IRET_pop i s = Inr s'"
    and "0 \<le> reg s ! 7" "reg s ! 7 < 255" "length (reg s) = 8" "i < 7"
  shows "reg s' = (reg s)[i := ram s ! nat (reg s ! 7) mod 256, 7 := reg s ! 7 + 1] \<and>
         ram s' = ram s \<and>
         PC s' = PC s \<and> IR s' = IR s \<and> FL s' = FL s \<and> old_IM s' = old_IM s"
  using assms
  by (auto simp add: IRET_pop_def SP_fset_mod SP_def REG_eqs ram_read_eq Let_def
      succ_mod_word mod_word_id split: if_splits)

lemma IRET_pop_loop:
  "for_loop xs IRET_pop s = Inr s' \<Longrightarrow>
   0 \<le> reg s ! 7 \<Longrightarrow> reg s ! 7 + int (length xs) \<le> 255 \<Longrightarrow> length (reg s) = 8 \<Longrightarrow>
   \<forall>i\<in>set xs. i < 7 \<Longrightarrow> distinct xs \<Longrightarrow>
     reg s' ! 7 = reg s ! 7 + int (length xs) \<and>
     length (reg s') = 8 \<and>
     (\<forall>k<length xs. reg s' ! (xs ! k) = ram s ! nat (reg s ! 7 + int k) mod 256) \<and>
     (\<forall>j<7. j \<notin> set xs \<longrightarrow> reg s' ! j = reg s ! j) \<and>
     ram s' = ram s \<and>
     PC s' = PC s \<and> IR s' = IR s \<and> FL s' = FL s \<and> old_IM s' = old_IM s"
proof (induction xs arbitrary: s)
  case Nil
  then show ?case
    by simp
next
  case (Cons i xs)
  define p where "p = reg s ! 7"
  from Cons.prems obtain s1 where
    s1: "IRET_pop i s = Inr s1" and rest: "for_loop xs IRET_pop s1 = Inr s'"
    by (auto simp add: bindE_Inr_iff)
  from Cons.prems have i: "i < 7" and xs: "\<forall>j\<in>set xs. j < 7"
    and d: "distinct xs" and ni: "i \<notin> set xs"
    by simp_all
  from Cons.prems have p: "0 \<le> p" "p + 1 + int (length xs) \<le> 255"
    by (simp_all add: p_def)
  then have p255: "reg s ! 7 < 255"
    by (simp add: p_def)
  from IRET_pop_Inr [OF s1 Cons.prems(2) p255 Cons.prems(4) i]
  have r1: "reg s1 = (reg s)[i := ram s ! nat p mod 256, 7 := p + 1]"
    and m1: "ram s1 = ram s"
    and c1: "PC s1 = PC s" "IR s1 = IR s" "FL s1 = FL s" "old_IM s1 = old_IM s"
    by (simp_all add: p_def)
  have sp1: "reg s1 ! 7 = p + 1"
    using Cons.prems(4) by (simp add: r1)
  have "0 \<le> reg s1 ! 7" "reg s1 ! 7 + int (length xs) \<le> 255" "length (reg s1) = 8"
    using p Cons.prems(4) by (simp_all add: sp1) (simp add: r1)
  from Cons.IH [OF rest this xs d]
  have ih: "reg s' ! 7 = p + 1 + int (length xs)"
    "length (reg s') = 8"
    "\<forall>k<length xs. reg s' ! (xs ! k) = ram s ! nat (p + 1 + int k) mod 256"
    "\<forall>j<7. j \<notin> set xs \<longrightarrow> reg s' ! j = reg s1 ! j"
    "ram s' = ram s1"
    "PC s' = PC s1" "IR s' = IR s1" "FL s' = FL s1" "old_IM s' = old_IM s1"
    by (simp_all add: sp1 m1)
  have first: "reg s' ! i = ram s ! nat p mod 256"
    using ih(4) i ni Cons.prems(4) by (simp add: r1)
  have popped: "reg s' ! ((i # xs) ! k) = ram s ! nat (p + int k) mod 256"
    if k: "k < length (i # xs)" for k
  proof (cases k)
    case 0
    with first show ?thesis
      by simp
  next
    case (Suc k')
    with k have k': "k' < length xs"
      by simp
    with ih(3) have "reg s' ! (xs ! k') = ram s ! nat (p + 1 + int k') mod 256"
      by simp
    moreover have "p + int k = p + 1 + int k'"
      using Suc by simp
    moreover have "(i # xs) ! k = xs ! k'"
      using Suc by simp
    ultimately show ?thesis
      by (simp only:)
  qed
  have others: "reg s' ! j = reg s ! j" if "j < 7" "j \<notin> set (i # xs)" for j
  proof -
    from that have "reg s' ! j = reg s1 ! j"
      using ih(4) by simp
    also from that have "\<dots> = reg s ! j"
      by (simp add: r1)
    finally show ?thesis .
  qed
  show ?case
    using ih(1,2) popped others c1 ih(5-9) m1
    by (simp add: p_def [symmetric] algebra_simps)
qed

lemma and_255_mod: "v AND 255 = v mod 256" for v :: int
  using word_mask_256 [of v] by (simp add: MAX_MEM_eq)

lemma upt_7: "[0..<7] = [0, 1, 2, 3, 4, 5, 6]"
  by code_simp

lemma and_word_bounds: "0 \<le> x \<Longrightarrow> x < 256 \<Longrightarrow> 0 \<le> x AND y \<and> x AND y < 256" for x y :: int
  by (metis AND_upper1 and_nonnegative_int_iff le_less_trans)

lemma service_Inr:
  assumes run: "service n b s = Inr s1"
    and ok: "regs_ok s" "length (ram s) = 256"
  shows "9 \<le> reg s ! 7 \<and> reg s ! 7 \<le> 245 \<and>
    reg s1 = (reg s)[5 := 0, 6 := reg s ! 6 AND (255 XOR b), 7 := reg s ! 7 - 9] \<and>
    ram s1 ! nat (reg s ! 7 - 9 + 0) = reg s ! 6 AND (255 XOR b) \<and>
    ram s1 ! nat (reg s ! 7 - 9 + 1) = 0 \<and>
    ram s1 ! nat (reg s ! 7 - 9 + 2) = reg s ! 4 \<and>
    ram s1 ! nat (reg s ! 7 - 9 + 3) = reg s ! 3 \<and>
    ram s1 ! nat (reg s ! 7 - 9 + 4) = reg s ! 2 \<and>
    ram s1 ! nat (reg s ! 7 - 9 + 5) = reg s ! 1 \<and>
    ram s1 ! nat (reg s ! 7 - 9 + 6) = reg s ! 0 \<and>
    ram s1 ! nat (reg s ! 7 - 9 + 7) = FL s mod 256 \<and>
    ram s1 ! nat (reg s ! 7 - 9 + 8) = PC s mod 256 \<and>
    old_IM s1 = Some (reg s ! 5) \<and> FL s1 = FL s \<and> IR s1 = IR s"
proof -
  define p where "p = reg s ! 7"
  define r3 where "r3 = (reg s)[5 := 0, 6 := reg s ! 6 AND (255 XOR b)]"
  define s3 where "s3 = s\<lparr>old_IM := Some (reg s ! 5), reg := r3\<rparr>"
  have l: "length (reg s) = 8"
    using ok(1) by (rule regs_ok_length)
  have p: "0 \<le> p" "p < 256"
    using regs_ok_nth [OF ok(1), of 7] by (simp_all add: p_def)
  have r: "0 \<le> reg s ! i \<and> reg s ! i < 256" if "i < 8" for i
    using regs_ok_nth [OF ok(1) that] .
  have is6: "(reg s ! 6 AND (255 XOR b)) mod 256 = reg s ! 6 AND (255 XOR b)"
    using and_word_bounds [of "reg s ! 6" "255 XOR b"] r [of 6] by simp
  have r3: "length r3 = 8" "r3 ! 7 = p" "r3 ! 0 = reg s ! 0" "r3 ! 1 = reg s ! 1"
    "r3 ! 2 = reg s ! 2" "r3 ! 3 = reg s ! 3" "r3 ! 4 = reg s ! 4" "r3 ! 5 = 0"
    "r3 ! 6 = reg s ! 6 AND (255 XOR b)"
    using l by (simp_all add: r3_def p_def)
  have r3mod: "r3 ! i mod 256 = r3 ! i" if "i < 7" for i
  proof -
    from that l have "r3 ! i =
        (if i = 6 then reg s ! 6 AND (255 XOR b) else if i = 5 then 0 else reg s ! i)"
      by (simp add: r3_def nth_list_update)
    with r [of i] that is6 show ?thesis
      by auto
  qed
  from run have run': "bindE (SP_fset (SP s3 - 1) s3) (\<lambda>s4.
      let s5 = ram_write (SP s4) (PC s4) s4 in
      bindE (SP_fset (SP s5 - 1) s5) (\<lambda>s6.
      let s7 = ram_write (SP s6) (FL s6) s6 in
      bindE (for_loop [0..<7] service_push s7) (\<lambda>s8.
      PC_fset (ram s8 ! nat (248 + int n)) s8))) = Inr s1"
    using l
    by (simp add: service_def s3_def r3_def IM_fset_def IS_fset_def IM_def IS_def REG_eqs
        and_255_mod is6 Let_def REGISTERS_def MAX_MEM_eq INTERRUPTS_def BITS_def)
  define s7 where "s7 = s\<lparr>old_IM := Some (reg s ! 5), reg := r3[7 := p - 2],
      MAR := p - 2, MDR := FL s mod 256,
      ram := (ram s)[nat (p - 1) := PC s mod 256, nat (p - 2) := FL s mod 256]\<rparr>"
  from run' have "2 \<le> p \<and> p \<le> 245 \<and>
      (\<exists>s8. for_loop [0..<7] service_push s7 = Inr s8 \<and>
         PC_fset (ram s8 ! nat (248 + int n)) s8 = Inr s1)"
    using p r3(1,2)
    by (auto simp add: bindE_Inr_iff SP_fset_mod SP_def REG_eqs ram_write_eq Let_def s3_def
        s7_def pred_mod_word mod_word_id split: if_splits)
  then obtain s8 where
    p2: "2 \<le> p" "p \<le> 245"
    and loop: "for_loop [0..<7] service_push s7 = Inr s8"
    and last: "PC_fset (ram s8 ! nat (248 + int n)) s8 = Inr s1"
    by blast
  have s7: "reg s7 = r3[7 := p - 2]"
      "ram s7 = (ram s)[nat (p - 1) := PC s mod 256, nat (p - 2) := FL s mod 256]"
      "PC s7 = PC s" "IR s7 = IR s" "FL s7 = FL s" "old_IM s7 = Some (reg s ! 5)"
    by (simp_all add: s7_def)
  have pre: "0 \<le> reg s7 ! 7" "reg s7 ! 7 < 256" "length (reg s7) = 8" "length (ram s7) = 256"
    "\<forall>i\<in>set [0..<7]. i < 7"
    using p2 r3(1) ok(2) by (simp_all add: s7)
  have sp7: "reg s7 ! 7 = p - 2"
    using r3(1) by (simp add: s7)
  from service_push_loop [OF loop pre]
  have s8: "9 \<le> p" "reg s8 = r3[7 := p - 9]"
    "\<forall>k<7. ram s8 ! nat (p - 2 - 1 - int k) = r3 ! k mod 256"
    "\<forall>a. p - 2 \<le> int a \<longrightarrow> ram s8 ! a = ram s7 ! a"
    "PC s8 = PC s" "IR s8 = IR s" "FL s8 = FL s" "old_IM s8 = Some (reg s ! 5)"
    using r3(1) by (simp_all add: s7)
  have pushed: "ram s8 ! nat (p - 3 - int k) = r3 ! k" if "k < 7" for k
  proof -
    from that s8(3) have "ram s8 ! nat (p - 2 - 1 - int k) = r3 ! k mod 256"
      by simp
    then show ?thesis
      using r3mod [OF that] by (simp add: algebra_simps)
  qed
  have fl: "ram s8 ! nat (p - 2) = FL s mod 256"
    using s8(4) p2 s8(1) ok(2) by (simp add: s7)
  have pc: "ram s8 ! nat (p - 1) = PC s mod 256"
  proof -
    have "ram s8 ! nat (p - 1) = ram s7 ! nat (p - 1)"
      using s8(4) s8(1) by simp
    also have "\<dots> = PC s mod 256"
      using s8(1) ok(2) p by (simp add: s7 nat_eq_iff)
    finally show ?thesis .
  qed
  from last have s1: "reg s1 = reg s8" "ram s1 = ram s8" "FL s1 = FL s8" "IR s1 = IR s8"
    "old_IM s1 = old_IM s8"
    by (auto simp add: PC_fset_mod split: if_splits)
  show ?thesis
    using s8(1) p2(2) pushed [of 0] pushed [of 1] pushed [of 2] pushed [of 3] pushed [of 4]
      pushed [of 5] pushed [of 6] fl pc l
    by (simp add: s1 s8 r3 p_def [symmetric] r3_def algebra_simps)
qed

lemma OP_A_fset_frame:
  "OP_A_fset v s = Inr s' \<Longrightarrow>
     reg s' = reg s \<and> ram s' = ram s \<and> PC s' = PC s \<and> IR s' = IR s \<and> FL s' = FL s \<and>
     old_IM s' = old_IM s"
  by (auto simp add: OP_A_fset_def raise_def Let_def split: if_splits)

lemma OP_B_fset_frame:
  "OP_B_fset v s = Inr s' \<Longrightarrow>
     reg s' = reg s \<and> ram s' = ram s \<and> PC s' = PC s \<and> IR s' = IR s \<and> FL s' = FL s \<and>
     old_IM s' = old_IM s"
  by (auto simp add: OP_B_fset_def raise_def Let_def split: if_splits)

lemma operands_frame:
  assumes "bindE (OP_A_fset a s) (\<lambda>s3. OP_B_fset b (g s3)) = Inr s'"
    and "\<And>t. reg (g t) = reg t \<and> ram (g t) = ram t \<and> PC (g t) = PC t \<and> IR (g t) = IR t \<and>
      FL (g t) = FL t \<and> old_IM (g t) = old_IM t"
  shows "reg s' = reg s \<and> ram s' = ram s \<and> PC s' = PC s \<and> IR s' = IR s \<and> FL s' = FL s \<and>
     old_IM s' = old_IM s"
proof -
  from assms(1) obtain s3 where a: "OP_A_fset a s = Inr s3" and b: "OP_B_fset b (g s3) = Inr s'"
    by (auto simp add: bindE_Inr_iff)
  from OP_A_fset_frame [OF a] OP_B_fset_frame [OF b] assms(2) [of s3] show ?thesis
    by simp
qed

lemma IR_fset_frame:
  assumes "IR_fset v s = Inr s'"
  shows "reg s' = reg s \<and> ram s' = ram s \<and> PC s' = PC s \<and> FL s' = FL s \<and>
         old_IM s' = old_IM s \<and> IR s' = v mod 256"
proof -
  define w where "w = v mod 256"
  define s1 where "s1 = s\<lparr>IR := w\<rparr>"
  define one where "one \<longleftrightarrow> w AND push_bit (BITS - 2) 1 \<noteq> 0"
  define two where "two \<longleftrightarrow> w AND push_bit (BITS - 1) 1 \<noteq> 0"
  have unfold: "IR_fset v s =
     (if \<not> (OPCODES w \<noteq> None \<or> ALU w \<noteq> None)
      then raise (AssertionError ''CPU.IR: invalid opcode'') s
      else
         if one then
           if \<not> PC s1 + 1 < SP s1
           then raise (AssertionError ''CPU.IR: instruction operands in stack'') s1
           else
              bindE (OP_A_fset (Some (fst (ram_read (PC s1 + 1) s1))) (snd (ram_read (PC s1 + 1) s1)))
                (\<lambda>s3. OP_B_fset None s3)
         else if two then
           if \<not> PC s1 + 2 < SP s1
           then raise (AssertionError ''CPU.IR: instruction operands in stack'') s1
           else
              bindE (OP_A_fset (Some (fst (ram_read (PC s1 + 1) s1))) (snd (ram_read (PC s1 + 1) s1)))
                (\<lambda>s3. OP_B_fset (Some (fst (ram_read (PC s3 + 2) s3))) (snd (ram_read (PC s3 + 2) s3)))
         else
           bindE (OP_A_fset None s1) (\<lambda>s2. OP_B_fset None s2))"
    unfolding IR_fset_def Let_def w_def s1_def one_def two_def word_mask_256 case_prod_beta ..
  have rd: "reg (snd (ram_read a t)) = reg t \<and> ram (snd (ram_read a t)) = ram t \<and>
      PC (snd (ram_read a t)) = PC t \<and> IR (snd (ram_read a t)) = IR t \<and>
      FL (snd (ram_read a t)) = FL t \<and> old_IM (snd (ram_read a t)) = old_IM t" for a t
    by (simp add: ram_read_eq)
  have s1: "reg s1 = reg s \<and> ram s1 = ram s \<and> PC s1 = PC s \<and> FL s1 = FL s \<and>
         old_IM s1 = old_IM s \<and> IR s1 = w"
    by (simp add: s1_def)
  have "reg s' = reg s1 \<and> ram s' = ram s1 \<and> PC s' = PC s1 \<and> IR s' = IR s1 \<and> FL s' = FL s1 \<and>
     old_IM s' = old_IM s1"
  proof (cases one)
    case True
    with assms unfold have
      "bindE (OP_A_fset (Some (fst (ram_read (PC s1 + 1) s1))) (snd (ram_read (PC s1 + 1) s1)))
                (\<lambda>s3. OP_B_fset None s3) = Inr s'"
      by (simp add: raise_def split: if_splits)
    from operands_frame [where g = "\<lambda>t. t", OF this] rd [of "PC s1 + 1" s1] show ?thesis
      by simp
  next
    case False
    show ?thesis
    proof (cases two)
      case True
      with False assms unfold have
        "bindE (OP_A_fset (Some (fst (ram_read (PC s1 + 1) s1))) (snd (ram_read (PC s1 + 1) s1)))
                (\<lambda>s3. OP_B_fset (Some (fst (ram_read (PC s3 + 2) s3))) (snd (ram_read (PC s3 + 2) s3))) = Inr s'"
        by (simp add: raise_def split: if_splits)
      then obtain s3 where a: "OP_A_fset (Some (fst (ram_read (PC s1 + 1) s1))) (snd (ram_read (PC s1 + 1) s1)) = Inr s3"
        and b: "OP_B_fset (Some (fst (ram_read (PC s3 + 2) s3))) (snd (ram_read (PC s3 + 2) s3)) = Inr s'"
        by (auto simp add: bindE_Inr_iff)
      from OP_A_fset_frame [OF a] OP_B_fset_frame [OF b] rd [of "PC s1 + 1" s1]
        rd [of "PC s3 + 2" s3]
      show ?thesis
        by simp
    next
      case two: False
      with False assms unfold have "bindE (OP_A_fset None s1) (\<lambda>s2. OP_B_fset None s2) = Inr s'"
        by (simp add: raise_def split: if_splits)
      from operands_frame [where g = "\<lambda>t. t", OF this] show ?thesis
        by simp
    qed
  qed
  with s1 show ?thesis
    by (simp add: w_def)
qed

lemma fetch_Inr:
  assumes "fetch s = Inr s'"
  shows "reg s' = reg s \<and> ram s' = ram s \<and> PC s' = PC s \<and> FL s' = FL s \<and>
         old_IM s' = old_IM s"
proof -
  from assms have "IR_fset (fst (ram_read (PC s) s)) (snd (ram_read (PC s) s)) = Inr s'"
    by (simp add: fetch_def case_prod_beta)
  from IR_fset_frame [OF this] show ?thesis
    by (simp add: ram_read_eq)
qed

lemma rev_upt_7: "rev [0..<7] = [6, 5, 4, 3, 2, 1, 0]"
  by code_simp

lemma IRET_Inr:
  assumes run: "IRET s = Inr s'"
    and sp: "0 \<le> reg s ! 7" "reg s ! 7 \<le> 236"
    and l: "length (reg s) = 8"
  shows "reg s' ! 7 = reg s ! 7 + 9 \<and>
    reg s' ! 6 = ram s ! nat (reg s ! 7 + 0) mod 256 \<and>
    (\<exists>m. old_IM s = Some m \<and> reg s' ! 5 = m mod 256) \<and>
    reg s' ! 4 = ram s ! nat (reg s ! 7 + 2) mod 256 \<and>
    reg s' ! 3 = ram s ! nat (reg s ! 7 + 3) mod 256 \<and>
    reg s' ! 2 = ram s ! nat (reg s ! 7 + 4) mod 256 \<and>
    reg s' ! 1 = ram s ! nat (reg s ! 7 + 5) mod 256 \<and>
    reg s' ! 0 = ram s ! nat (reg s ! 7 + 6) mod 256 \<and>
    FL s' = ram s ! nat (reg s ! 7 + 7) mod 256 \<and>
    PC s' = ram s ! nat (reg s ! 7 + 8) mod 256 \<and> IR s' = IR s"
proof -
  define p where "p = reg s ! 7"
  from run obtain s7 m where pops: "IRET_pops s = Inr s7"
    and m: "old_IM s7 = Some m" and s': "s' = IM_fset m s7"
    by (auto simp add: IRET_def bindE_Inr_iff raise_def split: option.splits)
  from pops obtain s1 where loop: "for_loop [6, 5, 4, 3, 2, 1, 0] IRET_pop s = Inr s1"
    and rest: "(let (v, s2) = ram_read (SP s1) s1;
         s3 = FL_fset v s2 in
     bindE (SP_fset (SP s3 + 1) s3) (\<lambda>s4.
     let (v, s5) = ram_read (SP s4) s4 in
     bindE (PC_fset v s5) (\<lambda>s6.
     SP_fset (SP s6 + 1) s6))) = Inr s7"
    by (auto simp add: IRET_pops_def bindE_Inr_iff rev_upt_7)
  have pre: "reg s ! 7 + int (length [6, 5, 4, 3, 2, 1, 0::nat]) \<le> 255"
    "\<forall>i\<in>set [6, 5, 4, 3, 2, 1, 0::nat]. i < 7" "distinct [6, 5, 4, 3, 2, 1, 0::nat]"
    using sp by simp_all
  from IRET_pop_loop [OF loop sp(1) pre(1) l pre(2,3)]
  have s1: "reg s1 ! 7 = p + 7" "length (reg s1) = 8"
    "\<forall>k<7. reg s1 ! ([6, 5, 4, 3, 2, 1, 0] ! k) = ram s ! nat (p + int k) mod 256"
    "ram s1 = ram s" "old_IM s1 = old_IM s" "IR s1 = IR s"
    by (simp_all add: p_def)
  have popped: "reg s1 ! ([6, 5, 4, 3, 2, 1, 0] ! k) = ram s ! nat (p + int k) mod 256"
    if "k < 7" for k
    using s1(3) that by blast
  have r6: "reg s1 ! 6 = ram s ! nat (p + 0) mod 256"
    using popped [of 0] by simp
  have r5: "reg s1 ! 5 = ram s ! nat (p + 1) mod 256"
    using popped [of 1] by simp
  have r4: "reg s1 ! 4 = ram s ! nat (p + 2) mod 256"
    using popped [of 2] by simp
  have r3: "reg s1 ! 3 = ram s ! nat (p + 3) mod 256"
    using popped [of 3] by simp
  have r2: "reg s1 ! 2 = ram s ! nat (p + 4) mod 256"
    using popped [of 4] by simp
  have r1: "reg s1 ! 1 = ram s ! nat (p + 5) mod 256"
    using popped [of 5] by simp
  have r0: "reg s1 ! 0 = ram s ! nat (p + 6) mod 256"
    using popped [of 6] by simp
  note regs = r6 r5 r4 r3 r2 r1 r0
  have b: "0 \<le> p" "p \<le> 236"
    using sp by (simp_all add: p_def)
  have m7: "(p + 7) mod 256 = p + 7" "(p + 7 + 1) mod 256 = p + 8" "(p + 8) mod 256 = p + 8"
    "(p + 8 + 1) mod 256 = p + 9"
    using b by simp_all
  define s3 where "s3 = s1\<lparr>MAR := p + 7, MDR := ram s ! nat (p + 7) mod 256,
      FL := ram s ! nat (p + 7) mod 256\<rparr>"
  define K1 where "K1 = (\<lambda>s4. let (v, s5) = ram_read (SP s4) s4 in
     bindE (PC_fset v s5) (\<lambda>s6. SP_fset (SP s6 + 1) s6))"
  have sp3: "SP s3 = p + 7" "reg s3 = reg s1" "ram s3 = ram s"
    using s1(1,4) by (simp_all add: s3_def SP_def REG_eqs)
  have "ram_read (SP s1) s1 =
      (ram s ! nat (p + 7) mod 256, s1\<lparr>MAR := p + 7, MDR := ram s ! nat (p + 7) mod 256\<rparr>)"
    using s1(1,4) by (simp add: ram_read_eq SP_def REG_eqs m7)
  with rest have "bindE (SP_fset (SP s3 + 1) s3) K1 = Inr s7"
    unfolding K1_def s3_def by (simp add: FL_fset_def word_mask_256 Let_def)
  then obtain s4 where a4: "SP_fset (SP s3 + 1) s3 = Inr s4" and k1: "K1 s4 = Inr s7"
    by (auto simp add: bindE_Inr_iff)
  from a4 have s4: "s4 = s3\<lparr>reg := (reg s1)[7 := p + 8]\<rparr>"
    using b by (auto simp add: SP_fset_mod sp3 mod_word_id add.commute [of 8 p] split: if_splits)
  have sp4: "SP s4 = p + 8" "ram s4 = ram s"
    using s1(2) by (simp_all add: s4 sp3 SP_def REG_eqs)
  define s5 where "s5 = s4\<lparr>MAR := p + 8, MDR := ram s ! nat (p + 8) mod 256\<rparr>"
  have "ram_read (SP s4) s4 = (ram s ! nat (p + 8) mod 256, s5)"
    by (simp add: ram_read_eq sp4 m7 s5_def)
  with k1 have "bindE (PC_fset (ram s ! nat (p + 8) mod 256) s5)
      (\<lambda>s6. SP_fset (SP s6 + 1) s6) = Inr s7"
    by (simp add: K1_def)
  then obtain s6 where a6: "PC_fset (ram s ! nat (p + 8) mod 256) s5 = Inr s6"
    and a7: "SP_fset (SP s6 + 1) s6 = Inr s7"
    by (auto simp add: bindE_Inr_iff)
  from a6 have s6: "s6 = s5\<lparr>PC := ram s ! nat (p + 8) mod 256\<rparr>"
    by (simp add: PC_fset_mod split: if_splits)
  have sp6: "SP s6 = p + 8"
    using sp4(1) by (simp add: s6 s5_def SP_def)
  from a7 have "s7 = s6\<lparr>reg := (reg s6)[7 := p + 9]\<rparr>"
    using b by (auto simp add: SP_fset_mod sp6 mod_word_id add.commute [of 9 p] split: if_splits)
  then have s7: "reg s7 = (reg s1)[7 := p + 9]"
    "FL s7 = ram s ! nat (p + 7) mod 256" "PC s7 = ram s ! nat (p + 8) mod 256"
    "IR s7 = IR s"
    by (simp_all add: s6 s5_def s4 s3_def s1(6))
  show ?thesis
    using s1(2) regs m IRET_pops_old_IM [OF pops]
    by (simp add: s' IM_fset_def REG_eqs word_mask_256 s7 p_def [symmetric])
qed

lemma check_loop_Inr:
  "check_loop m ns s = Inr s' \<Longrightarrow> \<exists>n\<in>set ns. m AND push_bit n 1 \<noteq> 0 \<Longrightarrow>
   \<exists>i<length ns. m AND push_bit (ns ! i) 1 \<noteq> 0 \<and>
     (\<forall>j<i. m AND push_bit (ns ! j) 1 = 0) \<and>
     service (ns ! i) (push_bit (ns ! i) 1) s = Inr s'"
proof (induction ns)
  case Nil
  then show ?case
    by simp
next
  case (Cons n ns)
  show ?case
  proof (cases "m AND push_bit n 1 \<noteq> 0")
    case True
    with Cons.prems(1) have "service n (push_bit n 1) s = Inr s'"
      by (simp add: Let_def)
    with True have "m AND push_bit ((n # ns) ! 0) 1 \<noteq> 0 \<and>
        (\<forall>j<0. m AND push_bit ((n # ns) ! j) 1 = 0) \<and>
        service ((n # ns) ! 0) (push_bit ((n # ns) ! 0) 1) s = Inr s'"
      by simp
    then show ?thesis
      by blast
  next
    case False
    with Cons.prems have "check_loop m ns s = Inr s'" "\<exists>n\<in>set ns. m AND push_bit n 1 \<noteq> 0"
      by (simp_all add: Let_def)
    from Cons.IH [OF this] obtain i where i: "i < length ns"
      "m AND push_bit (ns ! i) 1 \<noteq> 0" "\<forall>j<i. m AND push_bit (ns ! j) 1 = 0"
      "service (ns ! i) (push_bit (ns ! i) 1) s = Inr s'"
      by blast
    have "\<forall>j<Suc i. m AND push_bit ((n # ns) ! j) 1 = 0"
    proof (intro allI impI)
      fix j
      assume "j < Suc i"
      then show "m AND push_bit ((n # ns) ! j) 1 = 0"
        using False i(3) by (cases j) simp_all
    qed
    with i have "Suc i < length (n # ns) \<and> m AND push_bit ((n # ns) ! Suc i) 1 \<noteq> 0 \<and>
        (\<forall>j<Suc i. m AND push_bit ((n # ns) ! j) 1 = 0) \<and>
        service ((n # ns) ! Suc i) (push_bit ((n # ns) ! Suc i) 1) s = Inr s'"
      by simp
    then show ?thesis
      by blast
  qed
qed

lemma pending_line:
  fixes m :: int
  assumes "m \<noteq> 0" "0 \<le> m" "m < 256"
  shows "\<exists>n<8. m AND push_bit n 1 \<noteq> 0"
proof -
  from assms(1) obtain n where n: "bit m n"
    by (auto simp add: bit_eq_iff)
  have "take_bit 8 m = m"
    using assms(2,3) by (simp add: take_bit_int_eq_self)
  with n have "n < 8"
    by (metis bit_take_bit_iff)
  moreover from n have "m AND push_bit n 1 \<noteq> 0"
    by (simp add: and_exp_eq_0_iff_not_bit)
  ultimately show ?thesis
    by blast
qed

lemma check_interrupts_Inr:
  assumes run: "check_interrupts s = Inr s1"
    and ok: "regs_ok s"
    and pending: "IM s AND IS s \<noteq> 0"
  shows "\<exists>n<8. (IM s AND IS s) AND push_bit n 1 \<noteq> 0 \<and>
     (\<forall>k<n. (IM s AND IS s) AND push_bit k 1 = 0) \<and>
     service n (push_bit n 1) s = Inr s1"
proof -
  have "0 \<le> IM s AND IS s \<and> IM s AND IS s < 256"
    using regs_ok_nth [OF ok, of 5] and_word_bounds [of "IM s" "IS s"]
    by (simp add: IM_def REG_eqs)
  with pending_line [OF pending] obtain n where "n < 8" "(IM s AND IS s) AND push_bit n 1 \<noteq> 0"
    by blast
  then have "\<exists>n\<in>set [0..<8]. (IM s AND IS s) AND push_bit n 1 \<noteq> 0"
    by auto
  from check_loop_Inr [OF run [unfolded check_interrupts_def] this]
  obtain i where "i < 8" "(IM s AND IS s) AND push_bit ([0..<8] ! i) 1 \<noteq> 0"
    "\<forall>j<i. (IM s AND IS s) AND push_bit ([0..<8] ! j) 1 = 0"
    "service ([0..<8] ! i) (push_bit ([0..<8] ! i) 1) s = Inr s1"
    by auto
  then have "i < 8 \<and> (IM s AND IS s) AND push_bit i 1 \<noteq> 0 \<and>
     (\<forall>k<i. (IM s AND IS s) AND push_bit k 1 = 0) \<and>
     service i (push_bit i 1) s = Inr s1"
    by (simp del: upt_Suc)
  then show ?thesis
    by blast
qed

lemma OPCODES_IRET: "OPCODES 0x13 = Some IRET"
  by (simp add: OPCODES_def)

lemma dispatch_IRET:
  assumes ok: "state_ok s"
    and pending: "IM s AND IS s \<noteq> 0"
    and dispatch: "check_interrupts s = Inr s1"
    and fetched: "fetch s1 = Inr s2" "IR s2 = IRET_OPCODE"
    and returned: "IRET s2 = Inr s3"
  shows "step s = Inr s3 \<and>
    (\<forall>i<5. reg s3 ! i = reg s ! i) \<and> IM s3 = IM s \<and>
    FL s3 = FL s \<and> PC s3 = PC s \<and> SP s3 = SP s \<and>
    (\<exists>n<8. (IM s AND IS s) AND push_bit n 1 \<noteq> 0 \<and>
       (\<forall>k<n. (IM s AND IS s) AND push_bit k 1 = 0) \<and>
       IS s3 = IS s AND (255 XOR push_bit n 1))"
proof -
  define p where "p = reg s ! 7"
  from ok have rok: "regs_ok s" and len: "length (ram s) = 256"
    and pc: "0 \<le> PC s" "PC s < 256" and fl: "0 \<le> FL s" "FL s < 256"
    by (simp_all add: state_ok_def ram_ok_length word_ok_def MAX_MEM_eq)
  have r: "0 \<le> reg s ! i \<and> reg s ! i < 256" if "i < 8" for i
    using regs_ok_nth [OF rok that] .
  have l: "length (reg s) = 8"
    using rok by (rule regs_ok_length)
  from check_interrupts_Inr [OF dispatch rok pending] obtain n where
    n: "n < 8" "(IM s AND IS s) AND push_bit n 1 \<noteq> 0"
      "\<forall>k<n. (IM s AND IS s) AND push_bit k 1 = 0"
    and serv: "service n (push_bit n 1) s = Inr s1"
    by blast
  define b :: int where "b = push_bit n 1"
  from service_Inr [OF serv rok len]
  have p9: "9 \<le> p" "p \<le> 245"
    and r1: "reg s1 = (reg s)[5 := 0, 6 := reg s ! 6 AND (255 XOR b), 7 := p - 9]"
    and stack: "ram s1 ! nat (p - 9) = reg s ! 6 AND (255 XOR b)"
      "ram s1 ! nat (p - 7) = reg s ! 4"
      "ram s1 ! nat (p - 6) = reg s ! 3"
      "ram s1 ! nat (p - 5) = reg s ! 2"
      "ram s1 ! nat (p - 4) = reg s ! 1"
      "ram s1 ! nat (p - 3) = reg s ! 0"
      "ram s1 ! nat (p - 2) = FL s mod 256"
      "ram s1 ! nat (p - 1) = PC s mod 256"
    and o1: "old_IM s1 = Some (reg s ! 5)"
    by (simp_all add: p_def b_def)
  from fetch_Inr [OF fetched(1)]
  have s2: "reg s2 = reg s1" "ram s2 = ram s1" "old_IM s2 = old_IM s1"
    by simp_all
  have sp2: "reg s2 ! 7 = p - 9" "length (reg s2) = 8"
    using l by (simp_all add: s2 r1)
  have sp1: "reg s1 ! 7 = p - 9"
    using l by (simp add: r1)
  have pre: "0 \<le> reg s2 ! 7" "reg s2 ! 7 \<le> 236"
    using p9 by (simp_all add: sp2)
  from IRET_Inr [OF returned pre sp2(2)]
  have s3: "reg s3 ! 7 = p"
    "reg s3 ! 6 = (reg s ! 6 AND (255 XOR b)) mod 256"
    "reg s3 ! 5 = reg s ! 5 mod 256"
    "reg s3 ! 4 = reg s ! 4 mod 256"
    "reg s3 ! 3 = reg s ! 3 mod 256"
    "reg s3 ! 2 = reg s ! 2 mod 256"
    "reg s3 ! 1 = reg s ! 1 mod 256"
    "reg s3 ! 0 = reg s ! 0 mod 256"
    "FL s3 = FL s mod 256 mod 256"
    "PC s3 = PC s mod 256 mod 256"
    "IR s3 = IR s2"
    by (simp_all add: sp1 s2 stack o1)
  have is6: "(reg s ! 6 AND (255 XOR b)) mod 256 = reg s ! 6 AND (255 XOR b)"
    using and_word_bounds [of "reg s ! 6" "255 XOR b"] r [of 6] by simp
  have low: "reg s3 ! i = reg s ! i" if "i < 5" for i
  proof -
    from that have "i = 0 \<or> i = 1 \<or> i = 2 \<or> i = 3 \<or> i = 4"
      by arith
    then show ?thesis
      using s3(4-8) r [of 0] r [of 1] r [of 2] r [of 3] r [of 4]
      by (auto simp add: mod_word_id)
  qed
  have "execute s2 = IRET s2"
    by (simp add: execute_def fetched(2) IRET_OPCODE_def ALU_MASK_def OPCODES_IRET)
  moreover have "advance s3 = Inr s3"
    by (simp add: advance_def s3(11) fetched(2) IRET_OPCODE_def)
  ultimately have "step s = Inr s3"
    by (simp add: step_def dispatch fetched(1) returned)
  moreover have "IM s3 = IM s" "FL s3 = FL s" "PC s3 = PC s" "SP s3 = SP s"
    "IS s3 = IS s AND (255 XOR b)"
    using r [of 5] pc fl
    by (simp_all add: IM_def IS_def SP_def REG_eqs s3 is6 p_def mod_word_id)
  ultimately show ?thesis
    using low n by (auto simp add: b_def)
qed

text \<open>
  C2, as the code has it. Take a well-formed CPU with a pending unmasked interrupt,
  whose interrupt check succeeds and whose handler starts with an \<^verbatim>\<open>IRET\<close> that
  succeeds. That is one pass of \<open>step\<close>, and after it \<open>R0\<close> to \<open>R4\<close>, the interrupt
  mask \<open>R5\<close>, \<open>FL\<close>, \<open>PC\<close> and \<open>SP\<close> hold their values from before the dispatch. The
  interrupt state \<open>R6\<close> does not: it is its old value with the bit of the serviced
  line, the lowest pending unmasked one, cleared.
\<close>

theorem dispatch_then_IRET_restores:
  assumes "state_ok s"
    and "IM s AND IS s \<noteq> 0"
    and "check_interrupts s = Inr s1"
    and "fetch s1 = Inr s2" "IR s2 = IRET_OPCODE"
    and "IRET s2 = Inr s3"
  shows "step s = Inr s3 \<and>
    (\<forall>i<5. reg s3 ! i = reg s ! i) \<and> IM s3 = IM s \<and>
    FL s3 = FL s \<and> PC s3 = PC s \<and> SP s3 = SP s \<and>
    (\<exists>n<8. (IM s AND IS s) AND push_bit n 1 \<noteq> 0 \<and>
       (\<forall>k<n. (IM s AND IS s) AND push_bit k 1 = 0) \<and>
       IS s3 = IS s AND (255 XOR push_bit n 1))"
  using assms by (rule dispatch_IRET)

lemma irq_facts:
  "state_ok irq_state \<and> IM irq_state AND IS irq_state \<noteq> 0 \<and>
   check_interrupts irq_state = Inr irq_dispatched \<and>
   fetch irq_dispatched = Inr irq_fetched \<and> IR irq_fetched = IRET_OPCODE \<and>
   IRET irq_fetched = Inr irq_returned"
  by code_simp

theorem dispatch_then_IRET_restores_witness:
  "state_ok irq_state \<and> IM irq_state AND IS irq_state \<noteq> 0 \<and>
   check_interrupts irq_state = Inr irq_dispatched \<and>
   fetch irq_dispatched = Inr irq_fetched \<and> IR irq_fetched = IRET_OPCODE \<and>
   IRET irq_fetched = Inr irq_returned \<and>
   step irq_state = Inr irq_returned \<and>
   reg irq_returned ! 0 = reg irq_state ! 0 \<and> IM irq_returned = IM irq_state \<and>
   FL irq_returned = FL irq_state \<and> PC irq_returned = PC irq_state \<and>
   SP irq_returned = SP irq_state"
proof -
  from irq_facts have h: "state_ok irq_state" "IM irq_state AND IS irq_state \<noteq> 0"
    "check_interrupts irq_state = Inr irq_dispatched"
    "fetch irq_dispatched = Inr irq_fetched" "IR irq_fetched = IRET_OPCODE"
    "IRET irq_fetched = Inr irq_returned"
    by simp_all
  from dispatch_then_IRET_restores [OF h] irq_facts show ?thesis
    by simp
qed

text \<open>
  The claim has every pushed register, the interrupt-state register among them, equal
  to its value before the dispatch. In \<open>irq_state\<close> interrupts 0 and 1 are pending
  and interrupt 0 is enabled: the pass that dispatches it and returns leaves the
  interrupt state at 2, not at 3.
\<close>

theorem dispatch_then_IRET_counterexample:
  "state_ok irq_state \<and> IM irq_state AND IS irq_state \<noteq> 0 \<and>
   step irq_state = Inr irq_returned \<and> IR irq_returned = IRET_OPCODE \<and>
   reg irq_state ! IS_REG = 3 \<and> reg irq_returned ! IS_REG = 2"
  by code_simp

section \<open>Register values stay within the word width\<close>

lemma word_ok_mod: "word_ok (v mod 256)"
  by (simp add: word_ok_def MAX_MEM_eq)

lemma regs_ok_fields:
  "regs_ok (s\<lparr>running := x1\<rparr>) = regs_ok s"
  "regs_ok (s\<lparr>dunder_running := x2\<rparr>) = regs_ok s"
  "regs_ok (s\<lparr>PC := x3\<rparr>) = regs_ok s"
  "regs_ok (s\<lparr>IR := x4\<rparr>) = regs_ok s"
  "regs_ok (s\<lparr>MAR := x5\<rparr>) = regs_ok s"
  "regs_ok (s\<lparr>MDR := x6\<rparr>) = regs_ok s"
  "regs_ok (s\<lparr>FL := x7\<rparr>) = regs_ok s"
  "regs_ok (s\<lparr>OP_A := x8\<rparr>) = regs_ok s"
  "regs_ok (s\<lparr>OP_B := x9\<rparr>) = regs_ok s"
  "regs_ok (s\<lparr>ram := x10\<rparr>) = regs_ok s"
  "regs_ok (s\<lparr>old_IM := x11\<rparr>) = regs_ok s"
  "regs_ok (s\<lparr>stdout := x12\<rparr>) = regs_ok s"
  by (simp_all add: regs_ok_def)

lemma regs_ok_put: "regs_ok s \<Longrightarrow> word_ok v \<Longrightarrow> regs_ok (s\<lparr>reg := (reg s)[k := v]\<rparr>)"
  by (auto simp add: regs_ok_def list_all_iff dest!: set_update_subset_insert [THEN subsetD])

lemma regs_ok_word: "regs_ok s \<Longrightarrow> k < length (reg s) \<Longrightarrow> word_ok (reg s ! k)"
  by (simp add: regs_ok_def list_all_length)

lemma SP_fset_regs_ok: "SP_fset v s = Inr s' \<Longrightarrow> regs_ok s \<Longrightarrow> regs_ok s'"
  by (auto simp add: SP_fset_mod regs_ok_put word_ok_mod split: if_splits)

lemma PC_fset_regs_ok: "PC_fset v s = Inr s' \<Longrightarrow> regs_ok s \<Longrightarrow> regs_ok s'"
  by (auto simp add: PC_fset_mod regs_ok_fields split: if_splits)

lemma py_index_Inr: "py_index xs i s = Inr k \<Longrightarrow> k < length xs"
  by (auto simp add: py_index_def raise_def Let_def split: option.splits if_splits)

lemma reg_get_word_ok: "reg_get i s = Inr v \<Longrightarrow> regs_ok s \<Longrightarrow> word_ok v"
  by (auto simp add: reg_get_def bindE_Inr_iff regs_ok_word dest!: py_index_Inr)

lemma reg_put_regs_ok: "reg_put i v s = Inr s' \<Longrightarrow> regs_ok s \<Longrightarrow> word_ok v \<Longrightarrow> regs_ok s'"
  by (auto simp add: reg_put_def bindE_Inr_iff regs_ok_put)

lemma ram_read_regs_ok: "regs_ok (snd (ram_read a s)) = regs_ok s" "word_ok (fst (ram_read a s))"
  by (simp_all add: ram_read_eq regs_ok_fields word_ok_mod)

lemma ram_write_regs_ok: "regs_ok (ram_write a v s) = regs_ok s"
  by (simp add: ram_write_eq regs_ok_fields)

lemma IS_fset_regs_ok: "regs_ok s \<Longrightarrow> regs_ok (IS_fset v s)"
  by (simp add: IS_fset_def word_mask_256 regs_ok_put word_ok_mod)

lemma IM_fset_regs_ok: "regs_ok s \<Longrightarrow> regs_ok (IM_fset v s)"
  by (simp add: IM_fset_def word_mask_256 regs_ok_put word_ok_mod)

lemma for_loop_invariant:
  assumes "for_loop xs body s = Inr s'" and "P s"
    and step: "\<And>i t t'. body i t = Inr t' \<Longrightarrow> P t \<Longrightarrow> P t'"
  shows "P s'"
  using assms(1,2)
proof (induction xs arbitrary: s)
  case Nil
  then show ?case by simp
next
  case (Cons i xs)
  then show ?case
    by (auto simp add: bindE_Inr_iff dest: step)
qed

lemma CALL_regs_ok: "CALL s = Inr s' \<Longrightarrow> regs_ok s \<Longrightarrow> regs_ok s'"
  by (auto simp add: CALL_def bindE_Inr_iff Let_def ram_write_regs_ok
      dest!: SP_fset_regs_ok PC_fset_regs_ok)

lemma HLT_regs_ok: "HLT s = Inr s' \<Longrightarrow> regs_ok s \<Longrightarrow> regs_ok s'"
  by (auto simp add: HLT_def regs_ok_fields)

lemma INT_regs_ok: "INT_opcode s = Inr s' \<Longrightarrow> regs_ok s \<Longrightarrow> regs_ok s'"
  by (auto simp add: INT_opcode_def bindE_Inr_iff Let_def raise_def IS_fset_regs_ok
      split: if_splits dest!: PC_fset_regs_ok)

lemma jump_regs_ok:
  "(if c then bindE (reg_get (OP_A s) s) (\<lambda>v. PC_fset v s) else PC_fset (PC s + 2) s) = Inr s' \<Longrightarrow>
   regs_ok s \<Longrightarrow> regs_ok s'"
  by (auto simp add: bindE_Inr_iff split: if_splits dest!: PC_fset_regs_ok)

lemma Jxx_regs_ok:
  "JEQ s = Inr s' \<Longrightarrow> regs_ok s \<Longrightarrow> regs_ok s'"
  "JGE s = Inr s' \<Longrightarrow> regs_ok s \<Longrightarrow> regs_ok s'"
  "JGT s = Inr s' \<Longrightarrow> regs_ok s \<Longrightarrow> regs_ok s'"
  "JLE s = Inr s' \<Longrightarrow> regs_ok s \<Longrightarrow> regs_ok s'"
  "JLT s = Inr s' \<Longrightarrow> regs_ok s \<Longrightarrow> regs_ok s'"
  "JNE s = Inr s' \<Longrightarrow> regs_ok s \<Longrightarrow> regs_ok s'"
  "JMP s = Inr s' \<Longrightarrow> regs_ok s \<Longrightarrow> regs_ok s'"
  unfolding JEQ_def JGE_def JGT_def JLE_def JLT_def JNE_def JMP_def
  by (erule jump_regs_ok, assumption)+
    (auto simp add: bindE_Inr_iff dest!: PC_fset_regs_ok)

lemma LD_regs_ok: "LD s = Inr s' \<Longrightarrow> regs_ok s \<Longrightarrow> regs_ok s'"
  using ram_read_regs_ok
  by (auto simp add: LD_def bindE_Inr_iff Let_def raise_def case_prod_beta
      split: option.splits if_splits dest!: reg_put_regs_ok)

lemma LDI_regs_ok: "LDI s = Inr s' \<Longrightarrow> regs_ok s \<Longrightarrow> operand_ok s \<Longrightarrow> regs_ok s'"
  by (auto simp add: LDI_def operand_ok_def raise_def split: option.splits
      dest!: reg_put_regs_ok)

lemma NOP_regs_ok: "NOP s = Inr s' \<Longrightarrow> regs_ok s \<Longrightarrow> regs_ok s'"
  by (simp add: NOP_def)

lemma POP_regs_ok: "POP s = Inr s' \<Longrightarrow> regs_ok s \<Longrightarrow> regs_ok s'"
  using ram_read_regs_ok
  by (auto simp add: POP_def bindE_Inr_iff Let_def case_prod_beta
      dest!: reg_put_regs_ok SP_fset_regs_ok)

lemma PRA_regs_ok: "PRA s = Inr s' \<Longrightarrow> regs_ok s \<Longrightarrow> regs_ok s'"
  by (auto simp add: PRA_def bindE_Inr_iff raise_def print_def regs_ok_fields split: if_splits)

lemma PRN_regs_ok: "PRN s = Inr s' \<Longrightarrow> regs_ok s \<Longrightarrow> regs_ok s'"
  by (auto simp add: PRN_def bindE_Inr_iff print_def regs_ok_fields)

lemma PUSH_regs_ok: "PUSH s = Inr s' \<Longrightarrow> regs_ok s \<Longrightarrow> regs_ok s'"
  by (auto simp add: PUSH_def bindE_Inr_iff ram_write_regs_ok dest!: SP_fset_regs_ok)

lemma RET_regs_ok: "RET s = Inr s' \<Longrightarrow> regs_ok s \<Longrightarrow> regs_ok s'"
  using ram_read_regs_ok
  by (auto simp add: RET_def bindE_Inr_iff Let_def case_prod_beta
      dest!: PC_fset_regs_ok SP_fset_regs_ok)

lemma ST_regs_ok: "ST s = Inr s' \<Longrightarrow> regs_ok s \<Longrightarrow> regs_ok s'"
  by (auto simp add: ST_def bindE_Inr_iff raise_def ram_write_regs_ok
      split: option.splits if_splits)

lemma py_index_same:
  "py_index xs i s = Inr k \<Longrightarrow> py_index ys i t = Inr j \<Longrightarrow> length ys = length xs \<Longrightarrow> j = k"
  by (auto simp add: py_index_def raise_def Let_def split: option.splits if_splits)

lemma reg_put_Inr:
  "reg_put i v s = Inr s' \<Longrightarrow>
   \<exists>k<length (reg s). py_index (reg s) i s = Inr k \<and> s' = s\<lparr>reg := (reg s)[k := v]\<rparr>"
  by (auto simp add: reg_put_def bindE_Inr_iff dest: py_index_Inr)

lemma reg_get_Inr:
  "reg_get i s = Inr v \<Longrightarrow> \<exists>k<length (reg s). py_index (reg s) i s = Inr k \<and> v = reg s ! k"
  by (auto simp add: reg_get_def bindE_Inr_iff dest: py_index_Inr)

text \<open>A register written and then masked in place, as \<^verbatim>\<open>alu\<close> and \<^verbatim>\<open>ADDI\<close> do.\<close>

lemma write_then_mask:
  assumes run: "bindE (reg_put i v s) (\<lambda>s1.
      bindE (reg_get i s1) (\<lambda>y. reg_put i (y mod 256) s1)) = Inr s'"
  shows "\<exists>k<length (reg s). py_index (reg s) i s = Inr k \<and>
           s' = s\<lparr>reg := (reg s)[k := v mod 256]\<rparr>"
proof -
  from run obtain s1 y where p1: "reg_put i v s = Inr s1" and g: "reg_get i s1 = Inr y"
    and p2: "reg_put i (y mod 256) s1 = Inr s'"
    by (auto simp add: bindE_Inr_iff)
  from reg_put_Inr [OF p1] obtain k where k: "k < length (reg s)"
    "py_index (reg s) i s = Inr k" "s1 = s\<lparr>reg := (reg s)[k := v]\<rparr>"
    by blast
  from reg_get_Inr [OF g] obtain j where j: "py_index (reg s1) i s1 = Inr j" "y = reg s1 ! j"
    by blast
  from reg_put_Inr [OF p2] obtain j' where j': "py_index (reg s1) i s1 = Inr j'"
    "s' = s1\<lparr>reg := (reg s1)[j' := y mod 256]\<rparr>"
    by blast
  have "j = k" "j' = k"
    using py_index_same [OF k(2) j(1)] py_index_same [OF k(2) j'(1)] by (simp_all add: k(3))
  with k j j' have "s' = s\<lparr>reg := (reg s)[k := v mod 256]\<rparr>"
    by simp
  with k show ?thesis
    by blast
qed

lemma ADDI_Inr:
  assumes "ADDI s = Inr s'"
  shows "\<exists>k<length (reg s). \<exists>imm. py_index (reg s) (OP_A s) s = Inr k \<and> OP_B s = Some imm \<and>
           s' = s\<lparr>reg := (reg s)[k := (reg s ! k + imm) mod 256]\<rparr>"
proof -
  from assms obtain x imm where x: "reg_get (OP_A s) s = Inr x" and imm: "OP_B s = Some imm"
    and rest: "bindE (reg_put (OP_A s) (x + imm) s) (\<lambda>s1.
      bindE (reg_get (OP_A s1) s1) (\<lambda>y. reg_put (OP_A s1) (y mod 256) s1)) = Inr s'"
    by (auto simp add: ADDI_def bindE_Inr_iff raise_def BITS_def and_255_mod
        split: option.splits)
  from rest obtain s1 y where p1: "reg_put (OP_A s) (x + imm) s = Inr s1"
    and g: "reg_get (OP_A s1) s1 = Inr y" and p2: "reg_put (OP_A s1) (y mod 256) s1 = Inr s'"
    by (auto simp add: bindE_Inr_iff)
  from reg_put_Inr [OF p1] have "OP_A s1 = OP_A s"
    by auto
  with p1 g p2 have "bindE (reg_put (OP_A s) (x + imm) s) (\<lambda>s1.
      bindE (reg_get (OP_A s) s1) (\<lambda>y. reg_put (OP_A s) (y mod 256) s1)) = Inr s'"
    by simp
  from write_then_mask [OF this] obtain k where k: "k < length (reg s)"
    "py_index (reg s) (OP_A s) s = Inr k" "s' = s\<lparr>reg := (reg s)[k := (x + imm) mod 256]\<rparr>"
    by blast
  from reg_get_Inr [OF x] k(2) have "x = reg s ! k"
    by auto
  with k imm show ?thesis
    by blast
qed

lemma ADDI_regs_ok: "ADDI s = Inr s' \<Longrightarrow> regs_ok s \<Longrightarrow> regs_ok s'"
  by (auto dest!: ADDI_Inr simp add: regs_ok_put word_ok_mod)

lemma IRET_pop_regs_ok: "IRET_pop i s = Inr s' \<Longrightarrow> regs_ok s \<Longrightarrow> regs_ok s'"
proof -
  assume run: "IRET_pop i s = Inr s'" and ok: "regs_ok s"
  define t where "t = s\<lparr>MAR := SP s mod 256, MDR := ram s ! nat (SP s mod 256) mod 256,
      reg := (reg s)[i := ram s ! nat (SP s mod 256) mod 256]\<rparr>"
  from run have "SP_fset (SP t + 1) t = Inr s'"
    by (simp add: IRET_pop_def ram_read_eq Let_def t_def)
  moreover have "regs_ok t"
    using regs_ok_put [OF ok word_ok_mod] by (simp add: t_def regs_ok_def)
  ultimately show "regs_ok s'"
    by (rule SP_fset_regs_ok)
qed

lemma IRET_regs_ok: "IRET s = Inr s' \<Longrightarrow> regs_ok s \<Longrightarrow> regs_ok s'"
proof -
  assume run: "IRET s = Inr s'" and ok: "regs_ok s"
  from run obtain s7 m where pops: "IRET_pops s = Inr s7" and s': "s' = IM_fset m s7"
    by (auto simp add: IRET_def bindE_Inr_iff raise_def split: option.splits)
  from pops obtain s1 s4 s6 where loop: "for_loop (rev [0..<7]) IRET_pop s = Inr s1"
    and a: "SP_fset (SP (FL_fset (fst (ram_read (SP s1) s1)) (snd (ram_read (SP s1) s1))) + 1)
        (FL_fset (fst (ram_read (SP s1) s1)) (snd (ram_read (SP s1) s1))) = Inr s4"
    and b: "PC_fset (fst (ram_read (SP s4) s4)) (snd (ram_read (SP s4) s4)) = Inr s6"
    and c: "SP_fset (SP s6 + 1) s6 = Inr s7"
    by (auto simp add: IRET_pops_def bindE_Inr_iff Let_def case_prod_beta)
  have "regs_ok s1"
    by (rule for_loop_invariant [where P = regs_ok, OF loop ok]) (rule IRET_pop_regs_ok)
  then have "regs_ok (FL_fset (fst (ram_read (SP s1) s1)) (snd (ram_read (SP s1) s1)))"
    by (simp add: FL_fset_def regs_ok_fields ram_read_regs_ok)
  with a have "regs_ok s4"
    by (rule SP_fset_regs_ok)
  then have "regs_ok (snd (ram_read (SP s4) s4))"
    by (simp add: ram_read_regs_ok)
  with b have "regs_ok s6"
    by (rule PC_fset_regs_ok)
  with c have "regs_ok s7"
    by (rule SP_fset_regs_ok)
  then show "regs_ok s'"
    by (simp add: s' IM_fset_regs_ok)
qed

lemma py_index_Inl:
  "py_index xs i s = Inl (e, s') \<Longrightarrow> (e = TypeError \<or> e = IndexError) \<and> s' = s"
  by (auto simp add: py_index_def raise_def Let_def split: option.splits if_splits)

lemma reg_get_Inl: "reg_get i s = Inl (e, s') \<Longrightarrow> (e = TypeError \<or> e = IndexError) \<and> s' = s"
  by (auto simp add: reg_get_def bindE_Inl_iff dest!: py_index_Inl)

lemma reg_put_Inl: "reg_put i v s = Inl (e, s') \<Longrightarrow> (e = TypeError \<or> e = IndexError) \<and> s' = s"
  by (auto simp add: reg_put_def bindE_Inl_iff dest!: py_index_Inl)

text \<open>
  The ways through the \<^verbatim>\<open>try\<close> body of \<^verbatim>\<open>alu\<close>: an operand cannot be read or the
  command is not in the table; the operation raises; or it returns a result, which is
  written to \<open>FL\<close> or to the register.
\<close>

lemma alu_try_cases:
  obtains (lookup) e where "alu_try op ra rb s = Inl (e, s)" "e \<noteq> ZeroDivisionError"
  | (raised) f x y e where "ALU_OP op = Some f" "f x y = Inl e" "alu_try op ra rb s = Inl (e, s)"
  | (computed) f x y r where "reg_get ra s = Inr x" "ALU_OP op = Some f" "f x y = Inr r"
      "alu_try op ra rb s =
         (if op = ''CMP'' then Inr (FL_fset r s)
          else bindE (reg_put ra r s) (\<lambda>s1.
               bindE (reg_get ra s1) (\<lambda>z. reg_put ra (z mod 256) s1)))"
proof (cases "reg_get ra s")
  case (Inl a)
  obtain e t where a: "a = (e, t)"
    by (cases a)
  with Inl reg_get_Inl [of ra s e t] have "alu_try op ra rb s = Inl (e, s)" "e \<noteq> ZeroDivisionError"
    by (auto simp add: alu_try_def)
  then show ?thesis
    by (rule lookup)
next
  case x: (Inr x)
  define Y where "Y = (case rb of
      None \<Rightarrow> Inr None
    | Some b \<Rightarrow> bindE (reg_get rb s) (\<lambda>y. Inr (Some y)))"
  have unfold: "alu_try op ra rb s = bindE Y (\<lambda>y.
     case ALU_OP op of
       None \<Rightarrow> raise KeyError s
     | Some f \<Rightarrow>
         (case f x y of
            Inl e \<Rightarrow> raise e s
          | Inr r \<Rightarrow>
              if op = ''CMP'' then Inr (FL_fset r s)
              else
                bindE (reg_put ra r s) (\<lambda>s1.
                bindE (reg_get ra s1) (\<lambda>z.
                reg_put ra (z AND (MAX_MEM - 1)) s1))))"
    by (simp add: alu_try_def x Y_def)
  show ?thesis
  proof (cases Y)
    case (Inl a)
    obtain e t where a: "a = (e, t)"
      by (cases a)
    with Inl have "(e = TypeError \<or> e = IndexError) \<and> t = s"
      by (auto simp add: Y_def bindE_Inl_iff split: option.splits dest!: reg_get_Inl)
    with Inl a unfold have "alu_try op ra rb s = Inl (e, s)" "e \<noteq> ZeroDivisionError"
      by auto
    then show ?thesis
      by (rule lookup)
  next
    case y: (Inr y)
    show ?thesis
    proof (cases "ALU_OP op")
      case None
      with y unfold have "alu_try op ra rb s = Inl (KeyError, s)" "KeyError \<noteq> ZeroDivisionError"
        by (simp_all add: raise_def)
      then show ?thesis
        by (rule lookup)
    next
      case f: (Some f)
      show ?thesis
      proof (cases "f x y")
        case (Inl e)
        with y f unfold have "alu_try op ra rb s = Inl (e, s)"
          by (simp add: raise_def)
        with f Inl show ?thesis
          by (rule raised)
      next
        case (Inr r)
        with y f unfold have "alu_try op ra rb s =
           (if op = ''CMP'' then Inr (FL_fset r s)
            else bindE (reg_put ra r s) (\<lambda>s1.
               bindE (reg_get ra s1) (\<lambda>z. reg_put ra (z mod 256) s1)))"
          by (simp add: word_mask_256)
        with x f Inr show ?thesis
          by (rule computed)
      qed
    qed
  qed
qed

lemma write_then_mask_Inl:
  assumes "bindE (reg_put i v s) (\<lambda>s1.
      bindE (reg_get i s1) (\<lambda>y. reg_put i (y mod 256) s1)) = Inl (e, s')"
  shows "e \<noteq> ZeroDivisionError"
  using assms by (auto simp add: bindE_Inl_iff dest!: reg_get_Inl reg_put_Inl)

lemma alu_try_Inr:
  assumes "alu_try op ra rb s = Inr s'"
  shows "(\<exists>r. s' = FL_fset r s) \<or>
         (\<exists>k<length (reg s). \<exists>r. s' = s\<lparr>reg := (reg s)[k := r mod 256]\<rparr>)"
proof (cases op ra rb s rule: alu_try_cases)
  case (lookup e)
  with assms show ?thesis
    by simp
next
  case (raised f x y e)
  with assms show ?thesis
    by simp
next
  case (computed f x y r)
  show ?thesis
  proof (cases "op = ''CMP''")
    case True
    with computed(4) assms show ?thesis
      by auto
  next
    case False
    with computed(4) assms have "bindE (reg_put ra r s) (\<lambda>s1.
        bindE (reg_get ra s1) (\<lambda>z. reg_put ra (z mod 256) s1)) = Inr s'"
      by simp
    from write_then_mask [OF this] show ?thesis
      by blast
  qed
qed

lemma alu_try_ZeroDivisionError:
  assumes "alu_try op ra rb s = Inl (ZeroDivisionError, s')"
  shows "s' = s"
proof (cases op ra rb s rule: alu_try_cases)
  case (lookup e)
  with assms show ?thesis
    by simp
next
  case (raised f x y e)
  with assms show ?thesis
    by simp
next
  case (computed f x y r)
  with assms write_then_mask_Inl [of ra r s ZeroDivisionError s'] show ?thesis
    by (auto split: if_splits)
qed

lemma alu_regs_ok:
  assumes run: "alu op ra rb s = Inr s'" and ok: "regs_ok s"
  shows "regs_ok s'"
proof (cases "alu_try op ra rb s")
  case (Inr t)
  with run have "s' = t"
    by (simp add: alu_def)
  with alu_try_Inr [OF Inr] ok show ?thesis
    by (auto simp add: FL_fset_def regs_ok_fields regs_ok_put word_ok_mod)
next
  case (Inl x)
  obtain e t where x: "x = (e, t)"
    by (cases x)
  with Inl run have e: "e = ZeroDivisionError"
    and s': "s' = print (''ALU ERROR: '' @ op @ '' by 0 at '' @ str_int (PC t) @ [newline]) t
        \<lparr>dunder_running := Some False\<rparr>"
    by (auto simp add: alu_def raise_def split: if_splits)
  from Inl x e have "t = s"
    by (auto dest: alu_try_ZeroDivisionError)
  with s' ok show ?thesis
    by (simp add: print_def regs_ok_fields)
qed

lemma OPCODES_cases:
  assumes "OPCODES k = Some f"
  shows "f = CALL \<or> f = HLT \<or> f = INT_opcode \<or> f = IRET \<or> f = JEQ \<or> f = JGE \<or> f = JGT \<or>
    f = JLE \<or> f = JLT \<or> f = JMP \<or> f = JNE \<or> f = LD \<or> f = LDI \<or> f = NOP \<or> f = POP \<or>
    f = PRA \<or> f = PRN \<or> f = PUSH \<or> f = RET \<or> f = ST \<or> f = ADDI"
  using assms by (simp add: OPCODES_def split: if_splits)

lemma opcode_regs_ok:
  assumes "OPCODES k = Some f" and "f s = Inr s'" and "regs_ok s" and "operand_ok s"
  shows "regs_ok s'"
  using OPCODES_cases [OF assms(1)] assms(2-)
  by (elim disjE)
    (simp_all add: CALL_regs_ok HLT_regs_ok INT_regs_ok IRET_regs_ok Jxx_regs_ok LD_regs_ok
      LDI_regs_ok NOP_regs_ok POP_regs_ok PRA_regs_ok PRN_regs_ok PUSH_regs_ok RET_regs_ok
      ST_regs_ok ADDI_regs_ok)

lemma execute_regs_ok:
  assumes "execute s = Inr s'" and "regs_ok s" and "operand_ok s"
  shows "regs_ok s'"
  using assms
  by (auto simp add: execute_def raise_def split: if_splits option.splits
      dest: alu_regs_ok opcode_regs_ok)

lemma advance_regs_ok: "advance s = Inr s' \<Longrightarrow> regs_ok s \<Longrightarrow> regs_ok s'"
  by (auto simp add: advance_def split: if_splits dest: PC_fset_regs_ok)

lemma OP_B_fset_operand_ok: "OP_B_fset b t = Inr s' \<Longrightarrow> operand_ok s'"
  by (auto simp add: OP_B_fset_def operand_ok_def raise_def Let_def word_mask_256 word_ok_mod
      split: if_splits option.splits)

lemma IR_fset_operand_ok:
  assumes "IR_fset v s = Inr s'"
  shows "operand_ok s'"
proof -
  from assms have "\<exists>b t. OP_B_fset b t = Inr s'"
    unfolding IR_fset_def Let_def case_prod_beta
    by (simp add: raise_def bindE_Inr_iff split: if_splits) blast+
  then show ?thesis
    by (auto dest: OP_B_fset_operand_ok)
qed

lemma fetch_regs_ok:
  assumes "fetch s = Inr s'" and "regs_ok s"
  shows "regs_ok s' \<and> operand_ok s'"
proof -
  from assms(1) have "IR_fset (fst (ram_read (PC s) s)) (snd (ram_read (PC s) s)) = Inr s'"
    by (simp add: fetch_def case_prod_beta)
  from IR_fset_operand_ok [OF this] fetch_Inr [OF assms(1)] assms(2) show ?thesis
    by (simp add: regs_ok_def)
qed

lemma service_push_regs_ok: "service_push i s = Inr s' \<Longrightarrow> regs_ok s \<Longrightarrow> regs_ok s'"
  by (auto simp add: service_push_def bindE_Inr_iff ram_write_regs_ok dest!: SP_fset_regs_ok)

lemma service_regs_ok:
  assumes run: "service n b s = Inr s'" and ok: "regs_ok s"
  shows "regs_ok s'"
proof -
  define s3 where "s3 = IS_fset (IS (IM_fset 0 (s\<lparr>old_IM := Some (IM s)\<rparr>)) AND (255 XOR b))
      (IM_fset 0 (s\<lparr>old_IM := Some (IM s)\<rparr>))"
  have ok3: "regs_ok s3"
    using ok by (simp add: s3_def IS_fset_regs_ok IM_fset_regs_ok regs_ok_fields)
  from run obtain s4 s6 s8 where a: "SP_fset (SP s3 - 1) s3 = Inr s4"
    and b: "SP_fset (SP (ram_write (SP s4) (PC s4) s4) - 1) (ram_write (SP s4) (PC s4) s4) = Inr s6"
    and c: "for_loop [0..<REGISTERS - 1] service_push (ram_write (SP s6) (FL s6) s6) = Inr s8"
    and d: "PC_fset (ram s8 ! nat (MAX_MEM - int INTERRUPTS + int n)) s8 = Inr s'"
    by (auto simp add: service_def Let_def bindE_Inr_iff s3_def)
  from a ok3 have "regs_ok s4"
    by (rule SP_fset_regs_ok)
  then have "regs_ok (ram_write (SP s4) (PC s4) s4)"
    by (simp add: ram_write_regs_ok)
  with b have "regs_ok s6"
    by (rule SP_fset_regs_ok)
  then have "regs_ok (ram_write (SP s6) (FL s6) s6)"
    by (simp add: ram_write_regs_ok)
  then have "regs_ok s8"
    by (rule for_loop_invariant [where P = regs_ok, OF c]) (rule service_push_regs_ok)
  with d show ?thesis
    by (rule PC_fset_regs_ok)
qed

lemma check_loop_regs_ok: "check_loop m ns s = Inr s' \<Longrightarrow> regs_ok s \<Longrightarrow> regs_ok s'"
  by (induction ns) (auto simp add: Let_def split: if_splits dest: service_regs_ok)

lemma step_regs_ok:
  assumes run: "step s = Inr s'" and ok: "regs_ok s"
  shows "regs_ok s'"
proof -
  from run obtain s1 s2 s3 where a: "check_interrupts s = Inr s1" and b: "fetch s1 = Inr s2"
    and c: "execute s2 = Inr s3" and d: "advance s3 = Inr s'"
    by (auto simp add: step_def bindE_Inr_iff)
  from a ok have "regs_ok s1"
    unfolding check_interrupts_def by (rule check_loop_regs_ok)
  from fetch_regs_ok [OF b this] have "regs_ok s2" "operand_ok s2"
    by simp_all
  with c have "regs_ok s3"
    by (rule execute_regs_ok)
  with d show ?thesis
    by (rule advance_regs_ok)
qed

lemma interrupt_regs_ok: "interrupt n s = Inr s' \<Longrightarrow> regs_ok s \<Longrightarrow> regs_ok s'"
  by (auto simp add: interrupt_def raise_def IS_fset_regs_ok split: if_splits)

lemma run_loop_regs_ok:
  "run_loop fuel ds s = Some (Inr s') \<Longrightarrow> regs_ok s \<Longrightarrow> regs_ok s'"
proof (induction fuel arbitrary: ds s)
  case 0
  then show ?case
    by (simp split: if_splits)
next
  case (Suc fuel)
  show ?case
  proof (cases "running s")
    case False
    with Suc.prems show ?thesis
      by simp
  next
    case True
    define d where "d = (case ds of [] \<Rightarrow> quiet | d # _ \<Rightarrow> d)"
    define r1 where "r1 = (if timer_elapsed d then interrupt TIMER_INTERRUPT s else Inr s)"
    from True Suc.prems(1) have eq: "(case r1 of
           Inl e \<Rightarrow> Some (Inl e)
         | Inr s1 \<Rightarrow>
             if key d = Some 27 then Some (Inr (s1\<lparr>running := False\<rparr>))
             else
               (case (case key d of
                        None \<Rightarrow> Inr s1
                      | Some c \<Rightarrow> interrupt KEYBOARD_INTERRUPT (ram_write KEY_BUFFER c s1)) of
                  Inl e \<Rightarrow> Some (Inl e)
                | Inr s2 \<Rightarrow>
                    (case step s2 of
                       Inl e \<Rightarrow> Some (Inl e)
                     | Inr s3 \<Rightarrow> run_loop fuel (tl ds) s3))) = Some (Inr s')"
      unfolding d_def r1_def by (simp add: Let_def)
    then obtain s1 where s1: "r1 = Inr s1"
      by (cases r1) auto
    with eq have rest: "(if key d = Some 27 then Some (Inr (s1\<lparr>running := False\<rparr>))
             else
               (case (case key d of
                        None \<Rightarrow> Inr s1
                      | Some c \<Rightarrow> interrupt KEYBOARD_INTERRUPT (ram_write KEY_BUFFER c s1)) of
                  Inl e \<Rightarrow> Some (Inl e)
                | Inr s2 \<Rightarrow>
                    (case step s2 of
                       Inl e \<Rightarrow> Some (Inl e)
                     | Inr s3 \<Rightarrow> run_loop fuel (tl ds) s3))) = Some (Inr s')"
      by simp
    from s1 Suc.prems(2) have ok1: "regs_ok s1"
      by (auto simp add: r1_def split: if_splits dest: interrupt_regs_ok)
    show ?thesis
    proof (cases "key d = Some 27")
      case True
      with rest ok1 show ?thesis
        by (auto simp add: regs_ok_fields)
    next
      case False
      define r2 where "r2 = (case key d of
                None \<Rightarrow> Inr s1
              | Some c \<Rightarrow> interrupt KEYBOARD_INTERRUPT (ram_write KEY_BUFFER c s1))"
      from False rest have eq2: "(case r2 of
                  Inl e \<Rightarrow> Some (Inl e)
                | Inr s2 \<Rightarrow>
                    (case step s2 of
                       Inl e \<Rightarrow> Some (Inl e)
                     | Inr s3 \<Rightarrow> run_loop fuel (tl ds) s3)) = Some (Inr s')"
        by (simp add: r2_def)
      then obtain s2 where s2': "r2 = Inr s2"
        by (cases r2) auto
      with eq2 have eq3: "(case step s2 of
                       Inl e \<Rightarrow> Some (Inl e)
                     | Inr s3 \<Rightarrow> run_loop fuel (tl ds) s3) = Some (Inr s')"
        by simp
      then obtain s3 where s3: "step s2 = Inr s3"
        by (cases "step s2") auto
      with eq3 have r: "run_loop fuel (tl ds) s3 = Some (Inr s')"
        by simp
      from s2' have s2: "(case key d of
                None \<Rightarrow> Inr s1
              | Some c \<Rightarrow> interrupt KEYBOARD_INTERRUPT (ram_write KEY_BUFFER c s1)) = Inr s2"
        by (simp add: r2_def)
      from s2 ok1 have "regs_ok s2"
        by (auto split: option.splits dest!: interrupt_regs_ok simp add: ram_write_regs_ok)
      with s3 have "regs_ok s3"
        by (rule step_regs_ok)
      with r show ?thesis
        by (rule Suc.IH)
    qed
  qed
qed

lemma fold_ram_write_reg: "reg (fold (\<lambda>i. ram_write (f i) v) xs s) = reg s"
  by (induction xs arbitrary: s) (simp_all add: ram_write_eq)

lemma cpu_init_regs_ok: "regs_ok (cpu_init s)"
proof -
  have "regs_ok (s\<lparr>reg := replicate 8 0\<rparr>)"
    by (simp add: regs_ok_def REGISTERS_def list_all_iff word_ok_def MAX_MEM_eq)
  then have "regs_ok (s\<lparr>reg := (replicate 8 0)[7 := 244, 5 := 0, 6 := 0]\<rparr>)"
    by (simp add: regs_ok_def list_all_iff word_ok_def MAX_MEM_eq)
      (auto dest!: set_update_subset_insert [THEN subsetD])
  then show ?thesis
    by (simp add: cpu_init_def Let_def fold_ram_write_reg regs_ok_def SP_fdel_def IM_fdel_def
        IS_fdel_def REG_eqs STACK_BASE_eq REGISTERS_def ram_write_eq)
qed

lemma load_regs_ok:
  assumes "load program s = Inr s'"
  shows "regs_ok s'"
proof -
  have body: "(case x of (address, instruction) \<Rightarrow> \<lambda>s.
          if \<not> int address < STACK_BASE
          then raise (AssertionError ''program too large to fit in memory'') s
          else Inr (ram_write (int address) instruction s)) t = Inr t' \<Longrightarrow>
      regs_ok t \<Longrightarrow> regs_ok t'" for x t t'
    by (auto simp add: raise_def ram_write_regs_ok split: prod.splits if_splits)
  show ?thesis
    by (rule for_loop_invariant [where P = regs_ok, OF assms [unfolded load_def]
          cpu_init_regs_ok])
      (rule body)
qed

lemma alu_writes:
  assumes f: "ALU_OP op = Some f" and ncmp: "op \<noteq> ''CMP''"
    and a: "0 \<le> a" "a < int (length (reg s))"
    and r: "f (reg s ! nat a) y = Inr r"
    and y: "rb = None \<and> y = None \<or>
            (\<exists>b. rb = Some b \<and> 0 \<le> b \<and> b < int (length (reg s)) \<and> y = Some (reg s ! nat b))"
  shows "alu op (Some a) rb s = Inr (s\<lparr>reg := (reg s)[nat a := r mod 2 ^ 8]\<rparr>)"
proof -
  have operand: "(case rb of
      None \<Rightarrow> Inr None
    | Some b \<Rightarrow> bindE (reg_get rb s) (\<lambda>y. Inr (Some y))) = Inr y"
    using y by (auto simp add: reg_get_nonneg)
  have "alu_try op (Some a) rb s = Inr (s\<lparr>reg := (reg s)[nat a := r mod 2 ^ 8]\<rparr>)"
    using a ncmp
    by (simp add: alu_try_def reg_get_nonneg operand f r reg_put_nonneg word_mask_256)
  then show ?thesis
    by (simp add: alu_def)
qed

lemma ADDI_writes:
  assumes "OP_A s = Some a" "0 \<le> a" "a < int (length (reg s))" "OP_B s = Some imm"
  shows "ADDI s = Inr (s\<lparr>reg := (reg s)[nat a := (reg s ! nat a + imm) mod 2 ^ 8]\<rparr>)"
  using assms
  by (simp add: ADDI_def reg_get_nonneg reg_put_nonneg BITS_def and_255_mod)

lemma LDI_writes:
  assumes "operand_ok s" "OP_A s = Some a" "0 \<le> a" "a < int (length (reg s))"
    "OP_B s = Some imm"
  shows "LDI s = Inr (s\<lparr>reg := (reg s)[nat a := imm mod 2 ^ 8]\<rparr>)"
  using assms
  by (simp add: LDI_def reg_put_nonneg operand_ok_def word_ok_def MAX_MEM_eq)

lemma LD_writes:
  assumes "OP_A s = Some a" "0 \<le> a" "a < int (length (reg s))"
    "OP_B s = Some b" "0 \<le> b" "b < int (length (reg s))"
  shows "\<exists>s'. LD s = Inr s' \<and>
    reg s' = (reg s)[nat a := ram s ! nat (reg s ! nat b mod 2 ^ 8) mod 2 ^ 8]"
  using assms
  by (simp add: LD_def reg_get_nonneg reg_put_nonneg ram_read_eq)

lemma POP_writes:
  assumes "POP s = Inr s'" "OP_A s = Some a" "0 \<le> a" "a < 7" "length (reg s) = 8"
  shows "reg s' ! nat a = ram s ! nat (SP s mod 2 ^ 8) mod 2 ^ 8"
  using assms
  by (auto simp add: POP_def ram_read_eq reg_put_nonneg SP_fset_mod SP_def REG_eqs
      split: if_splits)

lemma IRET_pop_writes:
  assumes "IRET_pop i s = Inr s'" "i < 7" "length (reg s) = 8"
  shows "reg s' ! i = ram s ! nat (SP s mod 2 ^ 8) mod 2 ^ 8"
  using assms
  by (auto simp add: IRET_pop_def ram_read_eq Let_def SP_fset_mod SP_def REG_eqs
      split: if_splits)

lemma fetch_operand_ok: "fetch s = Inr s' \<Longrightarrow> operand_ok s'"
  by (simp add: fetch_def case_prod_beta IR_fset_operand_ok)

lemma CPU_regs_ok: "regs_ok CPU"
  by (simp add: CPU_def cpu_init_regs_ok)

lemma run_regs_ok: "run fuel ds s = Some (Inr s') \<Longrightarrow> regs_ok s \<Longrightarrow> regs_ok s'"
  unfolding run_def by (erule run_loop_regs_ok) (simp add: regs_ok_fields)

text \<open>
  C8. Every register holds a number in \<open>[0, 2 ^ 8)\<close>: a new CPU does, a CPU with a
  program loaded does, and every pass of the execution loop and every run keep it so.
  The instructions that write a register store the expected value reduced modulo
  \<open>2 ^ 8\<close>: an ALU command other than \<^verbatim>\<open>CMP\<close> stores the result of its operation in
  the table so reduced, \<^verbatim>\<open>ADDI\<close> the sum, \<^verbatim>\<open>LDI\<close> the immediate (which the decoder
  has masked), and \<^verbatim>\<open>LD\<close>, \<^verbatim>\<open>POP\<close> and each pop of \<^verbatim>\<open>IRET\<close> the masked memory cell.
\<close>

theorem register_values_masked:
  "regs_ok CPU \<and>
   (load program c0 = Inr c1 \<longrightarrow> regs_ok c1) \<and>
   (regs_ok s \<and> step s = Inr s' \<longrightarrow> regs_ok s') \<and>
   (regs_ok t \<and> run fuel ds t = Some (Inr t') \<longrightarrow> regs_ok t') \<and>
   (ALU_OP op = Some f \<and> op \<noteq> ''CMP'' \<and> 0 \<le> a \<and> a < int (length (reg u)) \<and>
    f (reg u ! nat a) y = Inr r \<and>
    (rb = None \<and> y = None \<or>
     (\<exists>b. rb = Some b \<and> 0 \<le> b \<and> b < int (length (reg u)) \<and> y = Some (reg u ! nat b)))
    \<longrightarrow> alu op (Some a) rb u = Inr (u\<lparr>reg := (reg u)[nat a := r mod 2 ^ 8]\<rparr>)) \<and>
   (OP_A v = Some i \<and> 0 \<le> i \<and> i < int (length (reg v)) \<and> OP_B v = Some imm
    \<longrightarrow> ADDI v = Inr (v\<lparr>reg := (reg v)[nat i := (reg v ! nat i + imm) mod 2 ^ 8]\<rparr>)) \<and>
   (fetch w0 = Inr w \<longrightarrow> operand_ok w) \<and>
   (operand_ok w \<and> OP_A w = Some j \<and> 0 \<le> j \<and> j < int (length (reg w)) \<and> OP_B w = Some k
    \<longrightarrow> LDI w = Inr (w\<lparr>reg := (reg w)[nat j := k mod 2 ^ 8]\<rparr>)) \<and>
   (OP_A x = Some d \<and> 0 \<le> d \<and> d < int (length (reg x)) \<and>
    OP_B x = Some e \<and> 0 \<le> e \<and> e < int (length (reg x))
    \<longrightarrow> (\<exists>x'. LD x = Inr x' \<and>
          reg x' = (reg x)[nat d := ram x ! nat (reg x ! nat e mod 2 ^ 8) mod 2 ^ 8])) \<and>
   (POP p = Inr p' \<and> OP_A p = Some g \<and> 0 \<le> g \<and> g < 7 \<and> length (reg p) = 8
    \<longrightarrow> reg p' ! nat g = ram p ! nat (SP p mod 2 ^ 8) mod 2 ^ 8) \<and>
   (IRET_pop h q = Inr q' \<and> h < 7 \<and> length (reg q) = 8
    \<longrightarrow> reg q' ! h = ram q ! nat (SP q mod 2 ^ 8) mod 2 ^ 8)"
proof (intro conjI impI)
  show "regs_ok CPU"
    by (rule CPU_regs_ok)
  show "regs_ok c1" if "load program c0 = Inr c1"
    using that by (rule load_regs_ok)
  show "regs_ok s'" if "regs_ok s \<and> step s = Inr s'"
    using that step_regs_ok [of s s'] by simp
  show "regs_ok t'" if "regs_ok t \<and> run fuel ds t = Some (Inr t')"
    using that run_regs_ok [of fuel ds t t'] by simp
  show "alu op (Some a) rb u = Inr (u\<lparr>reg := (reg u)[nat a := r mod 2 ^ 8]\<rparr>)"
    if "ALU_OP op = Some f \<and> op \<noteq> ''CMP'' \<and> 0 \<le> a \<and> a < int (length (reg u)) \<and>
      f (reg u ! nat a) y = Inr r \<and>
      (rb = None \<and> y = None \<or>
       (\<exists>b. rb = Some b \<and> 0 \<le> b \<and> b < int (length (reg u)) \<and> y = Some (reg u ! nat b)))"
    using that alu_writes [of op f a u y r rb] by simp
  show "ADDI v = Inr (v\<lparr>reg := (reg v)[nat i := (reg v ! nat i + imm) mod 2 ^ 8]\<rparr>)"
    if "OP_A v = Some i \<and> 0 \<le> i \<and> i < int (length (reg v)) \<and> OP_B v = Some imm"
    using that ADDI_writes [of v i imm] by simp
  show "operand_ok w" if "fetch w0 = Inr w"
    using that by (rule fetch_operand_ok)
  show "LDI w = Inr (w\<lparr>reg := (reg w)[nat j := k mod 2 ^ 8]\<rparr>)"
    if "operand_ok w \<and> OP_A w = Some j \<and> 0 \<le> j \<and> j < int (length (reg w)) \<and> OP_B w = Some k"
    using that LDI_writes [of w j k] by simp
  show "\<exists>x'. LD x = Inr x' \<and>
          reg x' = (reg x)[nat d := ram x ! nat (reg x ! nat e mod 2 ^ 8) mod 2 ^ 8]"
    if "OP_A x = Some d \<and> 0 \<le> d \<and> d < int (length (reg x)) \<and>
      OP_B x = Some e \<and> 0 \<le> e \<and> e < int (length (reg x))"
    using that LD_writes [of x d e] by simp
  show "reg p' ! nat g = ram p ! nat (SP p mod 2 ^ 8) mod 2 ^ 8"
    if "POP p = Inr p' \<and> OP_A p = Some g \<and> 0 \<le> g \<and> g < 7 \<and> length (reg p) = 8"
    using that POP_writes [of p p' g] by simp
  show "reg q' ! h = ram q ! nat (SP q mod 2 ^ 8) mod 2 ^ 8"
    if "IRET_pop h q = Inr q' \<and> h < 7 \<and> length (reg q) = 8"
    using that IRET_pop_writes [of h q q'] by simp
qed

lemma ALU_OP_SUB: "ALU_OP ''SUB'' = Some (binary (\<lambda>x y. Inr (x - y)))"
  by (simp add: ALU_OP_def)

lemma masked_facts_run:
  "load sum_program CPU = Inr sum_loaded \<and> regs_ok sum_loaded \<and>
   step sum_loaded = Inr sum_stepped \<and> run 5 [] sum_loaded = Some (Inr sum_finished) \<and>
   fetch sum_loaded = Inr sum_fetched \<and> OP_A sum_fetched = Some 0 \<and>
   OP_B sum_fetched = Some 8 \<and> length (reg sum_fetched) = 8"
  by code_simp

lemma masked_facts_alu:
  "length (reg sub_state) = 8 \<and> reg sub_state ! nat 1 = 1 \<and>
   binary (\<lambda>x y. Inr (x - y)) (reg sub_state ! nat 0) (Some 1) = Inr (- 1) \<and>
   OP_A addi_state = Some 0 \<and> OP_B addi_state = Some 255 \<and> length (reg addi_state) = 8 \<and>
   reg addi_state ! nat 0 = 2 \<and>
   OP_A ld_state = Some 0 \<and> OP_B ld_state = Some 1 \<and> length (reg ld_state) = 8 \<and>
   reg ld_state ! nat 1 = 247 \<and> ram ld_state ! nat 247 = 19"
  by code_simp

lemma masked_facts_pop:
  "POP pop_entry = Inr popped \<and> OP_A pop_entry = Some 1 \<and> length (reg pop_entry) = 8 \<and>
   SP pop_entry = 243 \<and> ram pop_entry ! nat 243 = 42 \<and>
   IRET_pop 6 irq_fetched = Inr irq_popped \<and> length (reg irq_fetched) = 8 \<and>
   SP irq_fetched = 235 \<and> ram irq_fetched ! nat 235 = 2"
  by code_simp

theorem register_values_masked_witness:
  "regs_ok CPU \<and>
   load sum_program CPU = Inr sum_loaded \<and> regs_ok sum_loaded \<and>
   step sum_loaded = Inr sum_stepped \<and> regs_ok sum_stepped \<and>
   run 5 [] sum_loaded = Some (Inr sum_finished) \<and> regs_ok sum_finished \<and>
   alu ''SUB'' (Some 0) (Some 1) sub_state = Inr (sub_state\<lparr>reg := (reg sub_state)[0 := 255]\<rparr>) \<and>
   ADDI addi_state = Inr (addi_state\<lparr>reg := (reg addi_state)[0 := 1]\<rparr>) \<and>
   fetch sum_loaded = Inr sum_fetched \<and> operand_ok sum_fetched \<and>
   LDI sum_fetched = Inr (sum_fetched\<lparr>reg := (reg sum_fetched)[0 := 8]\<rparr>) \<and>
   (\<exists>x'. LD ld_state = Inr x' \<and> reg x' = (reg ld_state)[0 := 19]) \<and>
   POP pop_entry = Inr popped \<and> reg popped ! 1 = 42 \<and>
   IRET_pop 6 irq_fetched = Inr irq_popped \<and> reg irq_popped ! 6 = 2"
proof -
  note T = register_values_masked [where program = sum_program and ?c0.0 = CPU
      and ?c1.0 = sum_loaded and s = sum_loaded and s' = sum_stepped and t = sum_loaded
      and fuel = 5 and ds = "[]" and t' = sum_finished
      and op = "''SUB''" and f = "binary (\<lambda>x y. Inr (x - y))" and a = 0 and u = sub_state
      and y = "Some 1" and r = "- 1" and rb = "Some 1"
      and v = addi_state and i = 0 and imm = 255
      and ?w0.0 = sum_loaded and w = sum_fetched and j = 0 and k = 8
      and x = ld_state and d = 0 and e = 1
      and p = pop_entry and p' = popped and g = 1
      and h = 6 and q = irq_fetched and q' = irq_popped]
  from T masked_facts_run have run: "regs_ok CPU" "regs_ok sum_loaded" "regs_ok sum_stepped"
    "regs_ok sum_finished" "operand_ok sum_fetched"
    by simp_all
  from T masked_facts_alu ALU_OP_SUB
  have alu: "alu ''SUB'' (Some 0) (Some 1) sub_state =
      Inr (sub_state\<lparr>reg := (reg sub_state)[0 := 255]\<rparr>)"
    by simp
  from T masked_facts_alu
  have addi: "ADDI addi_state = Inr (addi_state\<lparr>reg := (reg addi_state)[0 := 1]\<rparr>)"
    by simp
  from T masked_facts_run run(5)
  have ldi: "LDI sum_fetched = Inr (sum_fetched\<lparr>reg := (reg sum_fetched)[0 := 8]\<rparr>)"
    by simp
  from T masked_facts_alu
  have ld: "\<exists>x'. LD ld_state = Inr x' \<and> reg x' = (reg ld_state)[0 := 19]"
    by simp
  from T masked_facts_pop have pop: "reg popped ! 1 = 42" "reg irq_popped ! 6 = 2"
    by simp_all
  from run alu addi ldi ld pop masked_facts_run masked_facts_pop show ?thesis
    by simp
qed

end
